theory Spec2Isabelle
  imports Complex_Main "HOL-Library.Sublist"
begin

text \<open>
  The ordered event delivery and retry subsystem of the order, inventory and notification
  services: the per-entity sequence allocator (\<^verbatim>\<open>SequenceService\<close>), the in-memory
  reordering buffer (\<^verbatim>\<open>EventBufferService\<close>), the two retry services, and the publisher
  of the order service that composes them. Each TypeScript method is a function on the
  state of the process; what it awaits from outside (broker, clock, random numbers) is a
  function on a world that is passed along. Calls run to completion one after the other:
  interleavings of asynchronous calls and the firing of timers between calls are not
  part of a function (the cleanup timer of the buffer is a transition of its own).
\<close>

section \<open>Shared types\<close>

text \<open>
  A thrown JavaScript \<^verbatim>\<open>Error\<close> object: its \<^verbatim>\<open>name\<close>, its \<^verbatim>\<open>message\<close> and the optional
  \<^verbatim>\<open>code\<close> property that Node attaches to system errors.
\<close>

datatype error = Error (name: string) (message: string) (code: "string option")

text \<open>
  What a \<^verbatim>\<open>throw\<close> hands to the caller: an error object, or \<^verbatim>\<open>undefined\<close> (a variable
  thrown before anything was assigned to it).
\<close>

datatype thrown = Thrown error | ThrownUndefined

text \<open>
  \<^verbatim>\<open>BaseEvent\<close> and \<^verbatim>\<open>OrderedEvent extends BaseEvent\<close> (shared types). Dates are
  milliseconds since the epoch. The field \<^verbatim>\<open>id\<close> is written \<open>id_ev\<close>, since \<open>id\<close> is the
  identity function of HOL. Sequence numbers are JavaScript numbers; the model takes the
  integers among them.
\<close>

record BaseEvent =
  id_ev :: string
  timestamp :: nat
  version :: string
  sequenceNumber :: int
  entityId :: string
  correlationId :: "string option"
  causationId :: "string option"

record OrderedEvent = BaseEvent +
  processed :: bool
  processedAt :: "nat option"

text \<open>
  \<^verbatim>\<open>EventBuffer\<close>. The events of \<^verbatim>\<open>pendingEvents\<close> are JavaScript objects, shared with
  the caller of \<^verbatim>\<open>addEvent\<close> and mutated in place when they are processed: the list holds
  references into a store of event objects. The field \<^verbatim>\<open>entityId\<close> is written
  \<open>bufEntityId\<close>, the name \<open>entityId\<close> being the field of \<open>BaseEvent\<close>.
\<close>

type_synonym ref = nat

record EventBuffer =
  bufEntityId :: string
  pendingEvents :: "ref list"
  lastProcessedSequence :: int

text \<open>
  A row of the table \<^verbatim>\<open>event_sequences\<close> (\<^verbatim>\<open>EventSequenceEntity\<close>). Its primary key is the
  pair of the columns \<^verbatim>\<open>entityId\<close> and \<^verbatim>\<open>entityType\<close>: the table is a map from that pair
  to the other two columns.
\<close>

record EventSequenceEntity =
  lastSequenceNumber :: int
  updatedAt :: nat

type_synonym event_sequences = "string \<times> string \<rightharpoonup> EventSequenceEntity"

text \<open>
  What the code takes from its runtime, as functions on a world \<open>'w\<close> that the model
  does not look into: the clock (\<^verbatim>\<open>new Date()\<close>), \<^verbatim>\<open>Math.random()\<close>, the timer-based
  \<^verbatim>\<open>sleep\<close> (milliseconds), \<^verbatim>\<open>uuidv4()\<close>, and the text of a date (\<^verbatim>\<open>toISOString\<close>). Delays are JavaScript numbers, taken as
  reals.
\<close>

record 'w runtime =
  dateNow :: "'w \<Rightarrow> nat"
  mathRandom :: "'w \<Rightarrow> real \<times> 'w"
  sleep :: "real \<Rightarrow> 'w \<Rightarrow> 'w"
  uuidv4 :: "'w \<Rightarrow> string \<times> 'w"
  toISOString :: "nat \<Rightarrow> string"

text \<open>
  The state of one service process, passed through every operation:
  \<^item> \<open>world\<close>: what lies outside the process (broker, clock, random source);
  \<^item> \<open>heap\<close> and \<open>nextRef\<close>: the store of event objects and the next unused reference;
  \<^item> \<open>buffers\<close>: the private map of \<^verbatim>\<open>EventBufferService\<close>;
  \<^item> \<open>timers\<close>: the cleanup timers scheduled with \<^verbatim>\<open>setTimeout\<close>, by entity;
  \<^item> \<open>sequences\<close>: the table behind \<^verbatim>\<open>SequenceService\<close>;
  \<^item> \<open>calls\<close> and \<open>invocations\<close>: instruments of the model. \<open>calls\<close> is the trace of the
    invocations of \<^verbatim>\<open>processEvent\<close>, each with the event passed and whether it returned
    (\<open>True\<close>) or threw (\<open>False\<close>); \<open>invocations\<close> counts the calls that
    \<^verbatim>\<open>executeWithRetry\<close> makes to its operation.
  Log output is left out throughout.
\<close>

record 'w state =
  world :: 'w
  heap :: "ref \<Rightarrow> OrderedEvent"
  nextRef :: ref
  buffers :: "string \<rightharpoonup> EventBuffer"
  timers :: "string list"
  sequences :: event_sequences
  calls :: "(ref \<times> bool) list"
  invocations :: nat

section \<open>EventBufferService\<close>

text \<open>
  The processing callback: \<^verbatim>\<open>processEvent\<close> is a method that the tests replace, so the
  drain loop takes it as a parameter. It reads the event and acts on the world only.
\<close>

type_synonym 'w callback = "OrderedEvent \<Rightarrow> 'w \<Rightarrow> (error + unit) \<times> 'w"



text \<open>
  The \<^verbatim>\<open>try\<close> block that the drain loop runs on the head event after \<^verbatim>\<open>shift()\<close> (the same
  block in its three places, log texts apart): await the callback; when it returns, set
  \<^verbatim>\<open>processed\<close> and \<^verbatim>\<open>processedAt\<close> on the event object; when it throws, nothing is set.
  The result says whether the callback returned.
\<close>

definition tryProcess :: "'w callback \<Rightarrow> 'w runtime \<Rightarrow> ref \<Rightarrow> 'w state \<Rightarrow> bool \<times> 'w state" where
  "tryProcess cb rt r s =
     (let nextEvent = heap s r in
      case cb nextEvent (world s) of
        (Inr u, w') \<Rightarrow>
          (True, s\<lparr>heap := (heap s)(r := nextEvent\<lparr>processed := True,
                                                   processedAt := Some (dateNow rt w')\<rparr>),
                   world := w',
                   calls := calls s @ [(r, True)]\<rparr>)
      | (Inl e, w') \<Rightarrow>
          (False, s\<lparr>world := w', calls := calls s @ [(r, False)]\<rparr>))"

text \<open>
  The \<^verbatim>\<open>while\<close> loop of \<^verbatim>\<open>processBufferedEvents\<close>, on the buffer's two mutable fields
  (the pending list and \<^verbatim>\<open>lastProcessedSequence\<close>). When the callback throws, the event
  goes back to the front (\<^verbatim>\<open>unshift\<close>) and the loop breaks.
\<close>

fun drainLoop ::
  "'w callback \<Rightarrow> 'w runtime \<Rightarrow> ref list \<Rightarrow> int \<Rightarrow> 'w state \<Rightarrow> ref list \<times> int \<times> 'w state"
where
  "drainLoop cb rt [] lps s = ([], lps, s)"
| "drainLoop cb rt (r # rs) lps s =
     (let nextEvent = heap s r;
          expectedSequence = lps + 1
      in
      if sequenceNumber nextEvent = expectedSequence then
        (case tryProcess cb rt r s of
           (True, s') \<Rightarrow> drainLoop cb rt rs (sequenceNumber nextEvent) s'
         | (False, s') \<Rightarrow> (r # rs, lps, s'))
      else if sequenceNumber nextEvent < expectedSequence then
        drainLoop cb rt rs lps s
      else
        (let sequenceGap = sequenceNumber nextEvent - expectedSequence in
         if sequenceGap = 1 \<and> lps = 0 then
           (case tryProcess cb rt r s of
              (True, s') \<Rightarrow> drainLoop cb rt rs (sequenceNumber nextEvent) s'
            | (False, s') \<Rightarrow> (r # rs, lps, s'))
         else if sequenceGap > 5 then
           (case tryProcess cb rt r s of
              (True, s') \<Rightarrow> drainLoop cb rt rs (sequenceNumber nextEvent) s'
            | (False, s') \<Rightarrow> (r # rs, lps, s'))
         else (r # rs, lps, s)))"

text \<open>
  \<^verbatim>\<open>processBufferedEvents\<close>: nothing to do without a buffer or with an empty one; else run
  the loop, write the two fields back, and schedule the cleanup timer when the buffer
  has become empty.
\<close>

definition processBufferedEvents ::
  "'w callback \<Rightarrow> 'w runtime \<Rightarrow> string \<Rightarrow> 'w state \<Rightarrow> 'w state" where
  "processBufferedEvents cb rt eid s =
     (case buffers s eid of
        None \<Rightarrow> s
      | Some buffer \<Rightarrow>
          if pendingEvents buffer = [] then s
          else
            (case drainLoop cb rt (pendingEvents buffer) (lastProcessedSequence buffer) s of
               (pending', lps', s') \<Rightarrow>
                 s'\<lparr>buffers := (buffers s')(eid \<mapsto>
                        buffer\<lparr>pendingEvents := pending', lastProcessedSequence := lps'\<rparr>),
                    timers := (if pending' = [] then timers s' @ [eid] else timers s')\<rparr>))"

text \<open>
  \<^verbatim>\<open>addEvent\<close>: get or create the entity's buffer, push the event, sort the pending
  events by sequence number (\<^verbatim>\<open>Array.prototype.sort\<close> is stable, as \<open>sort_key\<close> is), then
  drain. Nothing in it throws: the promise resolves.
\<close>

definition addEvent ::
  "'w callback \<Rightarrow> 'w runtime \<Rightarrow> ref \<Rightarrow> 'w state \<Rightarrow> (error + unit) \<times> 'w state" where
  "addEvent cb rt r s =
     (let event = heap s r;
          eid = entityId event;
          buffer = (case buffers s eid of
                      None \<Rightarrow> \<lparr>bufEntityId = eid, pendingEvents = [], lastProcessedSequence = 0\<rparr>
                    | Some b \<Rightarrow> b);
          pushed = pendingEvents buffer @ [r];
          sorted = sort_key (\<lambda>x. sequenceNumber (heap s x)) pushed;
          s1 = s\<lparr>buffers := (buffers s)(eid \<mapsto> buffer\<lparr>pendingEvents := sorted\<rparr>)\<rparr>
      in (Inr (), processBufferedEvents cb rt eid s1))"

text \<open>
  The cleanup timer of an entity, when it fires (5 minutes after it was scheduled): an
  existing, empty buffer is deleted.
\<close>

definition cleanupTimerFired :: "string \<Rightarrow> 'w state \<Rightarrow> 'w state" where
  "cleanupTimerFired eid s =
     (let s' = s\<lparr>timers := remove1 eid (timers s)\<rparr> in
      case buffers s eid of
        None \<Rightarrow> s'
      | Some currentBuffer \<Rightarrow>
          if pendingEvents currentBuffer = [] then s'\<lparr>buffers := (buffers s)(eid := None)\<rparr>
          else s')"

definition getBufferStatus :: "string \<Rightarrow> 'w state \<Rightarrow> EventBuffer option" where
  "getBufferStatus eid s = buffers s eid"


section \<open>SequenceService\<close>

text \<open>
  \<^verbatim>\<open>getNextSequenceNumber\<close>: inside one transaction, find the row of the pair under a
  write lock; without a row, create one with the value 1 and return 1; else add one to
  the row's value, save, and return the new value. The model runs one transaction at a
  time on the table; failures of the storage itself (lost connection, lock timeout) are
  outside it, and the function has no \<^verbatim>\<open>throw\<close> of its own.
\<close>

definition getNextSequenceNumber ::
  "'w runtime \<Rightarrow> string \<Rightarrow> string \<Rightarrow> 'w state \<Rightarrow> (error + int) \<times> 'w state" where
  "getNextSequenceNumber rt eid etype s =
     (case sequences s (eid, etype) of
        None \<Rightarrow>
          (Inr 1,
           s\<lparr>sequences := (sequences s)((eid, etype) \<mapsto>
                \<lparr>lastSequenceNumber = 1, updatedAt = dateNow rt (world s)\<rparr>)\<rparr>)
      | Some sequence \<Rightarrow>
          (let sequence' = sequence\<lparr>lastSequenceNumber := lastSequenceNumber sequence + 1,
                                    updatedAt := dateNow rt (world s)\<rparr>
           in (Inr (lastSequenceNumber sequence'),
               s\<lparr>sequences := (sequences s)((eid, etype) \<mapsto> sequence')\<rparr>)))"

text \<open>\<^verbatim>\<open>getCurrentSequence\<close>: the row's value, and 0 without a row or for the value 0.\<close>

definition getCurrentSequence :: "string \<Rightarrow> string \<Rightarrow> 'w state \<Rightarrow> int" where
  "getCurrentSequence eid etype s =
     (case sequences s (eid, etype) of
        None \<Rightarrow> 0
      | Some sequence \<Rightarrow> lastSequenceNumber sequence)"

definition resetSequence :: "string \<Rightarrow> string \<Rightarrow> 'w state \<Rightarrow> 'w state" where
  "resetSequence eid etype s = s\<lparr>sequences := (sequences s)((eid, etype) := None)\<rparr>"

section \<open>RetryService of the order service\<close>

datatype operationType = Database | Rabbitmq | Http | Default

text \<open>
  \<^verbatim>\<open>RetryOptions\<close>: every property is optional, \<open>None\<close> is an absent property. The merged
  configuration (\<^verbatim>\<open>Required<RetryOptions>\<close>) has every property; its fields carry the
  prefix \<open>cfg\<close>. \<^verbatim>\<open>maxRetries\<close> is a JavaScript number, taken as an integer.
\<close>

record RetryOptions =
  maxRetries :: "int option"
  baseDelay :: "real option"
  maxDelay :: "real option"
  backoffMultiplier :: "real option"
  jitterEnabled :: "bool option"
  retryableErrors :: "string list option"
  operationType :: "operationType option"

record RetryConfig =
  cfgMaxRetries :: int
  cfgBaseDelay :: real
  cfgMaxDelay :: real
  cfgBackoffMultiplier :: real
  cfgJitterEnabled :: bool
  cfgRetryableErrors :: "string list"

text \<open>
  \<^verbatim>\<open>defaultRetryOptions\<close>, as the constructor builds it when the configuration service has
  no value of its own: the five numbers of the code and its list of twelve signatures.
\<close>

definition defaultRetryOptions :: RetryConfig where
  "defaultRetryOptions =
     \<lparr>cfgMaxRetries = 3, cfgBaseDelay = 1000, cfgMaxDelay = 30000,
      cfgBackoffMultiplier = 2, cfgJitterEnabled = True,
      cfgRetryableErrors =
        [''ECONNREFUSED'', ''ENOTFOUND'', ''ETIMEDOUT'', ''ECONNRESET'',
         ''Connection closed'', ''Channel closed'', ''Connection lost'',
         ''Connection terminated'', ''Connection timeout'',
         ''PRECONDITION_FAILED'', ''SERVICE_UNAVAILABLE'', ''TIMEOUT'']\<rparr>"

definition noOptions :: RetryOptions where
  "noOptions =
     \<lparr>maxRetries = None, baseDelay = None, maxDelay = None, backoffMultiplier = None,
      jitterEnabled = None, retryableErrors = None, operationType = None\<rparr>"

fun getRetryConfigByType :: "operationType \<Rightarrow> RetryOptions" where
  "getRetryConfigByType Database =
     noOptions\<lparr>maxRetries := Some 5, baseDelay := Some 500, maxDelay := Some 10000,
               backoffMultiplier := Some 1.5\<rparr>"
| "getRetryConfigByType Rabbitmq =
     noOptions\<lparr>maxRetries := Some 3, baseDelay := Some 1000, maxDelay := Some 15000,
               backoffMultiplier := Some 2\<rparr>"
| "getRetryConfigByType Http =
     noOptions\<lparr>maxRetries := Some 3, baseDelay := Some 2000, maxDelay := Some 20000,
               backoffMultiplier := Some 2\<rparr>"
| "getRetryConfigByType Default = noOptions"

text \<open>
  One property of the merged object \<^verbatim>\<open>{...defaults, ...typeSpecific, ...options}\<close>: the
  last of the three that has it.
\<close>

definition spread :: "'a \<Rightarrow> 'a option \<Rightarrow> 'a option \<Rightarrow> 'a" where
  "spread d t opt = (case opt of Some v \<Rightarrow> v | None \<Rightarrow> (case t of Some v \<Rightarrow> v | None \<Rightarrow> d))"

definition mergeOptions :: "RetryConfig \<Rightarrow> RetryOptions \<Rightarrow> RetryConfig" where
  "mergeOptions defaults options =
     (let operationType' = (case operationType options of Some t \<Rightarrow> t | None \<Rightarrow> Default);
          typeSpecificOptions = getRetryConfigByType operationType'
      in \<lparr>cfgMaxRetries =
             spread (cfgMaxRetries defaults) (maxRetries typeSpecificOptions) (maxRetries options),
           cfgBaseDelay =
             spread (cfgBaseDelay defaults) (baseDelay typeSpecificOptions) (baseDelay options),
           cfgMaxDelay =
             spread (cfgMaxDelay defaults) (maxDelay typeSpecificOptions) (maxDelay options),
           cfgBackoffMultiplier =
             spread (cfgBackoffMultiplier defaults) (backoffMultiplier typeSpecificOptions)
               (backoffMultiplier options),
           cfgJitterEnabled =
             spread (cfgJitterEnabled defaults) (jitterEnabled typeSpecificOptions)
               (jitterEnabled options),
           cfgRetryableErrors =
             spread (cfgRetryableErrors defaults) (retryableErrors typeSpecificOptions)
               (retryableErrors options)\<rparr>)"

text \<open>
  \<^verbatim>\<open>calculateDelay\<close>: exponential backoff, capped, with up to 10% added when jitter is on
  (\<^verbatim>\<open>Math.random()\<close> is read only then), rounded down.
\<close>

definition calculateDelay :: "'w runtime \<Rightarrow> int \<Rightarrow> RetryConfig \<Rightarrow> 'w \<Rightarrow> real \<times> 'w" where
  "calculateDelay rt attempt config w =
     (let delay = cfgBaseDelay config * cfgBackoffMultiplier config ^ nat attempt;
          delay = min delay (cfgMaxDelay config)
      in if cfgJitterEnabled config then
           (case mathRandom rt w of
              (rnd, w') \<Rightarrow> (of_int \<lfloor>delay + delay * 0.1 * rnd\<rfloor>, w'))
         else (of_int \<lfloor>delay\<rfloor>, w))"

text \<open>\<^verbatim>\<open>Error.prototype.toString\<close>.\<close>

definition toString :: "error \<Rightarrow> string" where
  "toString e =
     (if name e = [] then message e
      else if message e = [] then name e
      else name e @ '': '' @ message e)"

text \<open>
  \<^verbatim>\<open>isRetryableError\<close>: some signature occurs in the message (\<^verbatim>\<open>String.prototype.includes\<close>
  is \<open>sublist\<close>); an empty message gives way to \<^verbatim>\<open>toString()\<close>.
\<close>

definition isRetryableError :: "error \<Rightarrow> string list \<Rightarrow> bool" where
  "isRetryableError e signatures =
     (let errorMessage = (if message e \<noteq> [] then message e else toString e)
      in list_ex (\<lambda>retryableError. sublist retryableError errorMessage) signatures)"

text \<open>Decimal digits of a number (\<^verbatim>\<open>Number.prototype.toString\<close> on an integer).\<close>

fun digits :: "nat \<Rightarrow> nat \<Rightarrow> string" where
  "digits 0 n = []"
| "digits (Suc fuel) n =
     (if n < 10 then [char_of (48 + n)]
      else digits fuel (n div 10) @ [char_of (48 + n mod 10)])"

definition numberToString :: "int \<Rightarrow> string" where
  "numberToString i =
     (if i < 0 then ''-'' @ digits (Suc (nat (- i))) (nat (- i))
      else digits (Suc (nat i)) (nat i))"

text \<open>
  An operation is a zero-argument asynchronous callable: it acts on the world and returns
  or throws an error object.
\<close>

type_synonym ('w, 'a) operation = "'w \<Rightarrow> (error + 'a) \<times> 'w"

text \<open>
  The \<^verbatim>\<open>for\<close> loop of \<^verbatim>\<open>executeWithRetry\<close>, from the iteration \<open>attempt\<close> on, with the
  variable \<^verbatim>\<open>lastError\<close>. After the loop comes \<^verbatim>\<open>throw lastError\<close>.
\<close>

function retryLoop ::
  "'w runtime \<Rightarrow> ('w, 'a) operation \<Rightarrow> RetryConfig \<Rightarrow> string \<Rightarrow> int \<Rightarrow> thrown \<Rightarrow> 'w state
     \<Rightarrow> (thrown + 'a) \<times> 'w state"
where
  "retryLoop rt operation config context attempt lastError s =
     (if attempt \<le> cfgMaxRetries config then
        (case operation (world s) of
           (Inr result, w') \<Rightarrow>
             (Inr result, s\<lparr>world := w', invocations := invocations s + 1\<rparr>)
         | (Inl err, w') \<Rightarrow>
             (let s' = s\<lparr>world := w', invocations := invocations s + 1\<rparr> in
              if \<not> isRetryableError err (cfgRetryableErrors config) then (Inl (Thrown err), s')
              else if attempt = cfgMaxRetries config then
                (Inl (Thrown (Error ''Error''
                   (''Operation failed after '' @ numberToString (cfgMaxRetries config + 1)
                      @ '' attempts: '' @ context @ ''. Last error: '' @ message err)
                   None)), s')
              else
                (case calculateDelay rt attempt config w' of
                   (delay, w'') \<Rightarrow>
                     retryLoop rt operation config context (attempt + 1) (Thrown err)
                       (s'\<lparr>world := sleep rt delay w''\<rparr>))))
      else (Inl lastError, s))"
  by pat_completeness auto
termination
  by (relation "measure (\<lambda>(rt, operation, config, context, attempt, lastError, s).
                           nat (cfgMaxRetries config + 1 - attempt))") auto

definition executeWithRetry ::
  "'w runtime \<Rightarrow> RetryConfig \<Rightarrow> ('w, 'a) operation \<Rightarrow> RetryOptions \<Rightarrow> string \<Rightarrow> 'w state
     \<Rightarrow> (thrown + 'a) \<times> 'w state" where
  "executeWithRetry rt defaults operation options context s =
     retryLoop rt operation (mergeOptions defaults options) context 0 ThrownUndefined s"

section \<open>The second RetryService\<close>

text \<open>
  The retry service that stands beside \<^verbatim>\<open>EventBufferService\<close> and \<^verbatim>\<open>SequenceService\<close> in
  the same source unit. Its names carry the suffix \<open>_simple\<close>. Its options have four
  properties, each with a default in the parameter destructuring.
\<close>

record RetryOptions_simple =
  maxRetries_simple :: "int option"
  baseDelay_simple :: "real option"
  maxDelay_simple :: "real option"
  retryableErrors_simple :: "string list option"

definition noOptions_simple :: RetryOptions_simple where
  "noOptions_simple =
     \<lparr>maxRetries_simple = None, baseDelay_simple = None, maxDelay_simple = None,
      retryableErrors_simple = None\<rparr>"

text \<open>
  \<^verbatim>\<open>isRetryableError\<close>: the code, else the name, else the message of the error (the first
  that is not empty) is searched, and the message too.
\<close>

definition isRetryableError_simple :: "error \<Rightarrow> string list \<Rightarrow> bool" where
  "isRetryableError_simple e signatures =
     (let errorCode =
            (case code e of
               Some c \<Rightarrow> (if c \<noteq> [] then c else if name e \<noteq> [] then name e else message e)
             | None \<Rightarrow> (if name e \<noteq> [] then name e else message e))
      in list_ex (\<lambda>retryableError.
                    sublist retryableError errorCode \<or> sublist retryableError (message e))
           signatures)"

text \<open>\<^verbatim>\<open>calculateExponentialBackoff\<close>: doubling, 10% jitter always, capped after the jitter.\<close>

definition calculateExponentialBackoff ::
  "'w runtime \<Rightarrow> int \<Rightarrow> real \<Rightarrow> real \<Rightarrow> 'w \<Rightarrow> real \<times> 'w" where
  "calculateExponentialBackoff rt attempt baseDelay' maxDelay' w =
     (let delay = baseDelay' * 2 ^ nat attempt in
      case mathRandom rt w of
        (rnd, w') \<Rightarrow> (min (delay + rnd * 0.1 * delay) maxDelay', w'))"

function retryLoop_simple ::
  "'w runtime \<Rightarrow> ('w, 'a) operation \<Rightarrow> int \<Rightarrow> real \<Rightarrow> real \<Rightarrow> string list \<Rightarrow> int \<Rightarrow> thrown
     \<Rightarrow> 'w state \<Rightarrow> (thrown + 'a) \<times> 'w state"
where
  "retryLoop_simple rt operation maxRetries' baseDelay' maxDelay' retryableErrors' attempt
       lastError s =
     (if attempt \<le> maxRetries' then
        (case operation (world s) of
           (Inr result, w') \<Rightarrow>
             (Inr result, s\<lparr>world := w', invocations := invocations s + 1\<rparr>)
         | (Inl err, w') \<Rightarrow>
             (let s' = s\<lparr>world := w', invocations := invocations s + 1\<rparr> in
              if \<not> isRetryableError_simple err retryableErrors' then (Inl (Thrown err), s')
              else if attempt = maxRetries' then (Inl (Thrown err), s')
              else
                (case calculateExponentialBackoff rt attempt baseDelay' maxDelay' w' of
                   (delay, w'') \<Rightarrow>
                     retryLoop_simple rt operation maxRetries' baseDelay' maxDelay'
                       retryableErrors' (attempt + 1) (Thrown err)
                       (s'\<lparr>world := sleep rt delay w''\<rparr>))))
      else (Inl lastError, s))"
  by pat_completeness auto
termination
  by (relation "measure (\<lambda>(rt, operation, maxRetries', baseDelay', maxDelay',
                             retryableErrors', attempt, lastError, s).
                           nat (maxRetries' + 1 - attempt))") auto

definition executeWithRetry_simple ::
  "'w runtime \<Rightarrow> ('w, 'a) operation \<Rightarrow> RetryOptions_simple \<Rightarrow> 'w state
     \<Rightarrow> (thrown + 'a) \<times> 'w state" where
  "executeWithRetry_simple rt operation options s =
     retryLoop_simple rt operation
       (case maxRetries_simple options of Some v \<Rightarrow> v | None \<Rightarrow> 3)
       (case baseDelay_simple options of Some v \<Rightarrow> v | None \<Rightarrow> 1000)
       (case maxDelay_simple options of Some v \<Rightarrow> v | None \<Rightarrow> 30000)
       (case retryableErrors_simple options of
          Some v \<Rightarrow> v
        | None \<Rightarrow> [''ECONNREFUSED'', ''TIMEOUT'', ''DATABASE_ERROR'', ''SERVICE_UNAVAILABLE''])
       0 ThrownUndefined s"

text \<open>Both retry functions are unfolded by hand, one iteration at a time.\<close>

declare retryLoop.simps [simp del] retryLoop_simple.simps [simp del]

section \<open>EventPublisher of the order service\<close>

text \<open>
  The order handed to \<^verbatim>\<open>publishOrderCreated\<close> is typed \<^verbatim>\<open>any\<close>; these are the properties
  the method reads (\<^verbatim>\<open>id\<close> is written \<open>order_id\<close>). \<^verbatim>\<open>OrderCreatedEvent\<close> extends
  \<^verbatim>\<open>BaseEvent\<close> by its type tag and payload.
\<close>

record Order =
  order_id :: string
  customerId :: string
  totalAmount :: real

record OrderCreatedEvent = BaseEvent +
  type_ev :: string
  payload :: Order

record Notification =
  type_nt :: string
  orderId :: string
  customerId_nt :: string
  totalAmount_nt :: real
  timestamp_nt :: nat

text \<open>What \<^verbatim>\<open>ClientProxy.emit\<close> is given beside the routing key.\<close>

record 'd Message =
  data :: 'd
  timestamp_msg :: nat
  correlationId_msg :: string
  headers :: "(string \<times> string) list"

text \<open>
  The two broker clients, each by what \<^verbatim>\<open>emit(routingKey, message).toPromise()\<close> does to
  the world.
\<close>

record 'w clients =
  inventoryClient :: "string \<Rightarrow> OrderCreatedEvent Message \<Rightarrow> ('w, unit) operation"
  notificationClient :: "string \<Rightarrow> Notification Message \<Rightarrow> ('w, unit) operation"

text \<open>
  The operation that \<^verbatim>\<open>publishToInventory\<close> hands to \<^verbatim>\<open>executeWithRetry\<close>: each attempt
  builds the message anew (the clock is read twice) and emits it.
\<close>

definition inventoryOperation ::
  "'w runtime \<Rightarrow> 'w clients \<Rightarrow> OrderCreatedEvent \<Rightarrow> string \<Rightarrow> ('w, unit) operation" where
  "inventoryOperation rt cl event routingKey w =
     inventoryClient cl routingKey
       \<lparr>data = event,
        timestamp_msg = dateNow rt w,
        correlationId_msg = (case correlationId event of Some c \<Rightarrow> c | None \<Rightarrow> []),
        headers =
          [(''x-message-id'', id_ev event),
           (''x-correlation-id'', (case correlationId event of Some c \<Rightarrow> c | None \<Rightarrow> [])),
           (''x-event-type'', type_ev event),
           (''x-retry-count'', ''0''),
           (''x-original-timestamp'', toISOString rt (dateNow rt w))]\<rparr>
       w"

text \<open>
  \<^verbatim>\<open>publishToInventory\<close>: emit under the retry profile of \<^verbatim>\<open>rabbitmq\<close>; the \<^verbatim>\<open>catch\<close>
  block logs \<^verbatim>\<open>error.stack\<close> and throws the error again (reading \<^verbatim>\<open>stack\<close> of
  \<^verbatim>\<open>undefined\<close> is a \<^verbatim>\<open>TypeError\<close>).
\<close>

definition publishToInventory ::
  "'w runtime \<Rightarrow> RetryConfig \<Rightarrow> 'w clients \<Rightarrow> OrderCreatedEvent \<Rightarrow> string \<Rightarrow> 'w state
     \<Rightarrow> (thrown + unit) \<times> 'w state" where
  "publishToInventory rt defaults cl event routingKey s =
     (case executeWithRetry rt defaults (inventoryOperation rt cl event routingKey)
             (noOptions\<lparr>operationType := Some Rabbitmq\<rparr>)
             (''publish-inventory-event-'' @ id_ev event) s of
        (Inr u, s') \<Rightarrow> (Inr (), s')
      | (Inl (Thrown e), s') \<Rightarrow> (Inl (Thrown e), s')
      | (Inl ThrownUndefined, s') \<Rightarrow>
          (Inl (Thrown (Error ''TypeError''
             ''Cannot read properties of undefined (reading 'stack')'' None)), s'))"

text \<open>
  The notification object has neither \<^verbatim>\<open>id\<close> nor \<^verbatim>\<open>correlationId\<close>, so each of the three
  places that would read them draws a fresh \<^verbatim>\<open>uuidv4()\<close>, on every attempt.
\<close>

definition notificationOperation ::
  "'w runtime \<Rightarrow> 'w clients \<Rightarrow> Notification \<Rightarrow> string \<Rightarrow> ('w, unit) operation" where
  "notificationOperation rt cl notification routingKey w =
     (let t = dateNow rt w in
      case uuidv4 rt w of (cid, w1) \<Rightarrow>
      case uuidv4 rt w1 of (mid, w2) \<Rightarrow>
      case uuidv4 rt w2 of (hcid, w3) \<Rightarrow>
        notificationClient cl routingKey
          \<lparr>data = notification,
           timestamp_msg = t,
           correlationId_msg = cid,
           headers =
             [(''x-message-id'', mid),
              (''x-correlation-id'', hcid),
              (''x-notification-type'', type_nt notification),
              (''x-retry-count'', ''0''),
              (''x-original-timestamp'', toISOString rt (dateNow rt w3))]\<rparr>
          w3)"

definition publishToNotification ::
  "'w runtime \<Rightarrow> RetryConfig \<Rightarrow> 'w clients \<Rightarrow> Notification \<Rightarrow> string \<Rightarrow> 'w state
     \<Rightarrow> (thrown + unit) \<times> 'w state" where
  "publishToNotification rt defaults cl notification routingKey s =
     (case uuidv4 rt (world s) of (nid, w1) \<Rightarrow>
      case executeWithRetry rt defaults (notificationOperation rt cl notification routingKey)
             (noOptions\<lparr>operationType := Some Rabbitmq\<rparr>)
             (''publish-notification-event-'' @ nid) (s\<lparr>world := w1\<rparr>) of
        (Inr u, s') \<Rightarrow> (Inr (), s')
      | (Inl (Thrown e), s') \<Rightarrow> (Inl (Thrown e), s')
      | (Inl ThrownUndefined, s') \<Rightarrow>
          (Inl (Thrown (Error ''TypeError''
             ''Cannot read properties of undefined (reading 'stack')'' None)), s'))"

text \<open>
  \<^verbatim>\<open>publishOrderCreated\<close>, in two parts. The first part takes the next sequence number of
  \<open>(order.id, 'order')\<close>, builds the event, creates the \<^verbatim>\<open>OrderedEvent\<close> object and
  admits it to the buffer; it returns the event with the state. The second part emits
  to the inventory queue, then to the notification queue. Each \<^verbatim>\<open>await\<close> passes a
  rejection on to the caller; no step undoes an earlier one. The sequence service and
  the event buffer of the order service are the ones modelled above; the processing
  callback of the buffer is the parameter \<open>cb\<close>.
\<close>

definition admitOrderCreated ::
  "'w runtime \<Rightarrow> 'w callback \<Rightarrow> Order \<Rightarrow> string option \<Rightarrow> 'w state
     \<Rightarrow> (thrown + OrderCreatedEvent) \<times> 'w state" where
  "admitOrderCreated rt cb order' correlationId' s =
     (case getNextSequenceNumber rt (order_id order') ''order'' s of
        (Inl e, s1) \<Rightarrow> (Inl (Thrown e), s1)
      | (Inr sequenceNumber', s1) \<Rightarrow>
          (case uuidv4 rt (world s1) of (eventId, w1) \<Rightarrow>
           let t = dateNow rt w1 in
           case (case correlationId' of
                   Some c \<Rightarrow> (if c \<noteq> [] then (c, w1) else uuidv4 rt w1)
                 | None \<Rightarrow> uuidv4 rt w1) of (cid, w2) \<Rightarrow>
           let event = \<lparr>id_ev = eventId, timestamp = t, version = ''1.0'',
                        sequenceNumber = sequenceNumber', entityId = order_id order',
                        correlationId = Some cid, causationId = None,
                        type_ev = ''order.created'', payload = order'\<rparr>;
               orderedEvent = \<lparr>id_ev = id_ev event, timestamp = timestamp event,
                               version = version event,
                               sequenceNumber = sequenceNumber event,
                               entityId = entityId event,
                               correlationId = correlationId event, causationId = None,
                               processed = False, processedAt = None\<rparr>;
               r = nextRef s1;
               s2 = s1\<lparr>world := w2, heap := (heap s1)(r := orderedEvent), nextRef := Suc r\<rparr>
           in
           case addEvent cb rt r s2 of
             (Inl e, s3) \<Rightarrow> (Inl (Thrown e), s3)
           | (Inr u, s3) \<Rightarrow> (Inr event, s3)))"

definition publishOrderCreated ::
  "'w runtime \<Rightarrow> RetryConfig \<Rightarrow> 'w clients \<Rightarrow> 'w callback \<Rightarrow> Order \<Rightarrow> string option
     \<Rightarrow> 'w state \<Rightarrow> (thrown + unit) \<times> 'w state" where
  "publishOrderCreated rt defaults cl cb order' correlationId' s =
     (case admitOrderCreated rt cb order' correlationId' s of
        (Inl e, s3) \<Rightarrow> (Inl e, s3)
      | (Inr event, s3) \<Rightarrow>
          (case publishToInventory rt defaults cl event ''order.created'' s3 of
             (Inl e, s4) \<Rightarrow> (Inl e, s4)
           | (Inr u, s4) \<Rightarrow>
               publishToNotification rt defaults cl
                 \<lparr>type_nt = ''ORDER_CREATED'', orderId = order_id order',
                  customerId_nt = customerId order', totalAmount_nt = totalAmount order',
                  timestamp_nt = dateNow rt (world s4)\<rparr>
                 ''order.notification'' s4))"

section \<open>Notions used in the statements\<close>

text \<open>
  Admitting a list of events one after the other, each \<^verbatim>\<open>addEvent\<close> awaited before the
  next, as the tests do.
\<close>

fun addEvents :: "'w callback \<Rightarrow> 'w runtime \<Rightarrow> ref list \<Rightarrow> 'w state \<Rightarrow> 'w state" where
  "addEvents cb rt [] s = s"
| "addEvents cb rt (r # rs) s = addEvents cb rt rs (snd (addEvent cb rt r s))"

text \<open>The buffer of an entity as \<^verbatim>\<open>addEvent\<close> finds or creates it.\<close>

definition bufferOf :: "'w state \<Rightarrow> string \<Rightarrow> EventBuffer" where
  "bufferOf s e =
     (case buffers s e of
        None \<Rightarrow> \<lparr>bufEntityId = e, pendingEvents = [], lastProcessedSequence = 0\<rparr>
      | Some b \<Rightarrow> b)"

text \<open>
  The condition under which the drain loop hands a head event with sequence number \<open>q\<close>
  to the callback, \<open>lps\<close> being \<^verbatim>\<open>lastProcessedSequence\<close>: it is the expected one, or the
  cold-start exception applies, or the gap is larger than 5.
\<close>

definition shouldProcess :: "int \<Rightarrow> int \<Rightarrow> bool" where
  "shouldProcess q lps = (q = lps + 1 \<or> (lps = 0 \<and> q = 2) \<or> q - (lps + 1) > 5)"

text \<open>Every pending event of a buffer belongs to the entity the buffer is filed under.\<close>

definition wfBuffers :: "'w state \<Rightarrow> bool" where
  "wfBuffers s =
     (\<forall>e b. buffers s e = Some b \<longrightarrow>
        (\<forall>r \<in> set (pendingEvents b). entityId (heap s r) = e))"

text \<open>
  The sequence numbers, in order of invocation, of the events of entity \<open>e\<close> in a trace
  whose callback returned.
\<close>

definition processedSeqs :: "'w state \<Rightarrow> string \<Rightarrow> (ref \<times> bool) list \<Rightarrow> int list" where
  "processedSeqs s e cs =
     map (\<lambda>c. sequenceNumber (heap s (fst c)))
       (filter (\<lambda>c. snd c \<and> entityId (heap s (fst c)) = e) cs)"

text \<open>
  What a run of admissions from \<open>s0\<close> keeps true of the state \<open>s\<close> it has reached and of
  the trace \<open>new\<close> it has added.
\<close>

definition admitInv :: "'w state \<Rightarrow> 'w state \<Rightarrow> (ref \<times> bool) list \<Rightarrow> bool" where
  "admitInv s0 s new =
     (calls s = calls s0 @ new \<and> wfBuffers s \<and>
      (\<forall>x. sequenceNumber (heap s x) = sequenceNumber (heap s0 x)) \<and>
      (\<forall>x. entityId (heap s x) = entityId (heap s0 x)) \<and>
      (\<forall>e. sorted_wrt (<) (processedSeqs s0 e new)) \<and>
      (\<forall>c \<in> set new. snd c \<longrightarrow>
         sequenceNumber (heap s0 (fst c))
           \<le> lastProcessedSequence (bufferOf s (entityId (heap s0 (fst c))))) \<and>
      (\<forall>x. (x, True) \<notin> set new \<longrightarrow> heap s x = heap s0 x))"

text \<open>
  What a trace of invocations says, read against the callback itself: starting from a
  store of event objects and a world, the callback is applied to the event of each entry
  in turn, in the world the entry before it has left; an entry flagged \<open>True\<close> must be
  one on which the callback returned (the event object is then marked \<open>processed\<close>), an
  entry flagged \<open>False\<close> one on which it threw. The result says whether every flag agrees
  with the callback, and gives the store and the world at the end.
\<close>

fun replay ::
  "'w callback \<Rightarrow> 'w runtime \<Rightarrow> (ref \<times> bool) list \<Rightarrow> (ref \<Rightarrow> OrderedEvent) \<Rightarrow> 'w
     \<Rightarrow> bool \<times> (ref \<Rightarrow> OrderedEvent) \<times> 'w" where
  "replay cb rt [] h w = (True, h, w)"
| "replay cb rt ((r, flag) # cs) h w =
     (case cb (h r) w of
        (Inr u, w') \<Rightarrow>
          (case replay cb rt cs
                  (h(r := (h r)\<lparr>processed := True, processedAt := Some (dateNow rt w')\<rparr>)) w' of
             (agree, h', w'') \<Rightarrow> (flag \<and> agree, h', w''))
      | (Inl e, w') \<Rightarrow>
          (case replay cb rt cs h w' of
             (agree, h', w'') \<Rightarrow> (\<not> flag \<and> agree, h', w'')))"

text \<open>
  The world in which \<^verbatim>\<open>executeWithRetry\<close> makes its next attempt, after an attempt that
  ran in the world \<open>w\<close> and failed with a retryable error: the operation has acted, the
  delay has been computed and slept. One function for each of the two retry services.
\<close>

definition nextAttemptWorld ::
  "'w runtime \<Rightarrow> ('w, 'a) operation \<Rightarrow> RetryConfig \<Rightarrow> int \<Rightarrow> 'w \<Rightarrow> 'w" where
  "nextAttemptWorld rt operation config attempt w =
     (case calculateDelay rt attempt config (snd (operation w)) of
        (delay, w'') \<Rightarrow> sleep rt delay w'')"

definition nextAttemptWorld_simple ::
  "'w runtime \<Rightarrow> ('w, 'a) operation \<Rightarrow> real \<Rightarrow> real \<Rightarrow> int \<Rightarrow> 'w \<Rightarrow> 'w" where
  "nextAttemptWorld_simple rt operation baseDelay' maxDelay' attempt w =
     (case calculateExponentialBackoff rt attempt baseDelay' maxDelay' (snd (operation w)) of
        (delay, w'') \<Rightarrow> sleep rt delay w'')"

text \<open>
  A run of allocations, one transaction after the other: each request names the pair
  and the world (the time) at which it runs. The result lists what each call returned,
  with its pair.
\<close>

fun allocateAll ::
  "'w runtime \<Rightarrow> ((string \<times> string) \<times> 'w) list \<Rightarrow> 'w state
     \<Rightarrow> ((string \<times> string) \<times> (error + int)) list \<times> 'w state" where
  "allocateAll rt [] s = ([], s)"
| "allocateAll rt (((eid, etype), w) # reqs) s =
     (case getNextSequenceNumber rt eid etype (s\<lparr>world := w\<rparr>) of
        (res, s') \<Rightarrow>
          (case allocateAll rt reqs s' of
             (rs, s'') \<Rightarrow> (((eid, etype), res) # rs, s'')))"

text \<open>
  Two states with the same stores: the table of sequences, the buffers, the event
  objects, the trace of the callback, the timers and the next reference.
\<close>

definition sameStores :: "'w state \<Rightarrow> 'w state \<Rightarrow> bool" where
  "sameStores s s' =
     (sequences s' = sequences s \<and> buffers s' = buffers s \<and> heap s' = heap s \<and>
      calls s' = calls s \<and> timers s' = timers s \<and> nextRef s' = nextRef s)"

section \<open>Inputs for the concrete runs\<close>

text \<open>
  A runtime with a clock that stands still, a random source that returns 0, a
  \<^verbatim>\<open>sleep\<close> that only waits, and one fixed identifier; a callback that returns and one
  that throws; events of one entity that differ in their sequence number only.
\<close>

definition testRuntime :: "unit runtime" where
  "testRuntime =
     \<lparr>dateNow = (\<lambda>w. 0), mathRandom = (\<lambda>w. (0, w)), sleep = (\<lambda>d w. w),
      uuidv4 = (\<lambda>w. (''uuid'', w)), toISOString = (\<lambda>t. ''date'')\<rparr>"

definition returningCallback :: "unit callback" where
  "returningCallback ev w = (Inr (), w)"

definition throwingCallback :: "unit callback" where
  "throwingCallback ev w = (Inl (Error ''Error'' ''Processing failed'' None), w)"

definition testEvent :: "int \<Rightarrow> OrderedEvent" where
  "testEvent q =
     \<lparr>id_ev = ''event'', timestamp = 0, version = ''1.0'', sequenceNumber = q,
      entityId = ''test-entity-1'', correlationId = None, causationId = None,
      processed = False, processedAt = None\<rparr>"

text \<open>The event object at reference \<open>n\<close> has the \<open>n\<close>-th number of the list (0 beyond it).\<close>

definition testHeap :: "int list \<Rightarrow> ref \<Rightarrow> OrderedEvent" where
  "testHeap qs r = testEvent (if r < length qs then qs ! r else 0)"

text \<open>A process that has just started, with the event objects of \<open>qs\<close> created.\<close>

definition freshState :: "int list \<Rightarrow> unit state" where
  "freshState qs =
     \<lparr>world = (), heap = testHeap qs, nextRef = length qs, buffers = Map.empty,
      timers = [], sequences = Map.empty, calls = [], invocations = 0\<rparr>"

text \<open>An operation that fails every time with the same connection error.\<close>

definition connectionRefused :: error where
  "connectionRefused = Error ''Error'' ''connect ECONNREFUSED 127.0.0.1:5672'' None"

definition alwaysFails :: "(unit, unit) operation" where
  "alwaysFails w = (Inl connectionRefused, w)"

definition testOrder :: Order where
  "testOrder = \<lparr>order_id = ''order-1'', customerId = ''customer-1'', totalAmount = 10997 / 100\<rparr>"

text \<open>Broker clients: the inventory queue refuses every connection, the other accepts.\<close>

definition testClients :: "unit clients" where
  "testClients =
     \<lparr>inventoryClient = (\<lambda>routingKey msg w. (Inl connectionRefused, w)),
      notificationClient = (\<lambda>routingKey msg w. (Inr (), w))\<rparr>"

text \<open>
  The same runtime and starting state over any world; a callback that returns and writes
  the sequence number of the event it was given into the world; an operation that fails
  with a different connection error on each call, counting its calls in the world.
\<close>

definition stillRuntime :: "'w runtime" where
  "stillRuntime =
     \<lparr>dateNow = (\<lambda>w. 0), mathRandom = (\<lambda>w. (0, w)), sleep = (\<lambda>d w. w),
      uuidv4 = (\<lambda>w. (''uuid'', w)), toISOString = (\<lambda>t. ''date'')\<rparr>"

definition startState :: "'w \<Rightarrow> int list \<Rightarrow> 'w state" where
  "startState w qs =
     \<lparr>world = w, heap = testHeap qs, nextRef = length qs, buffers = Map.empty,
      timers = [], sequences = Map.empty, calls = [], invocations = 0\<rparr>"

definition recordingCallback :: "int list callback" where
  "recordingCallback ev w = (Inr (), w @ [sequenceNumber ev])"

definition failsDifferently :: "(nat, unit) operation" where
  "failsDifferently w =
     (Inl (Error ''Error''
        (if w = 0 then ''ECONNREFUSED on the first call''
         else if w = 1 then ''ECONNREFUSED on the second call''
         else ''ECONNREFUSED on the third call'') None),
      Suc w)"

section \<open>The drain loop\<close>

lemma drainLoop_Cons:
  "drainLoop cb rt (r # rs) lps s =
     (if sequenceNumber (heap s r) \<le> lps then drainLoop cb rt rs lps s
      else if shouldProcess (sequenceNumber (heap s r)) lps then
        (if fst (tryProcess cb rt r s)
         then drainLoop cb rt rs (sequenceNumber (heap s r)) (snd (tryProcess cb rt r s))
         else (r # rs, lps, snd (tryProcess cb rt r s)))
      else (r # rs, lps, s))"
  by (cases "tryProcess cb rt r s"; cases "fst (tryProcess cb rt r s)")
     (auto simp: shouldProcess_def Let_def)

lemma tryProcess_cases:
  obtains (ok) u w' where "cb (heap s r) (world s) = (Inr u, w')"
     "tryProcess cb rt r s = (True, s\<lparr>heap := (heap s)(r := (heap s r)\<lparr>processed := True,
                                                   processedAt := Some (dateNow rt w')\<rparr>),
                   world := w', calls := calls s @ [(r, True)]\<rparr>)"
  | (fail) e w' where "cb (heap s r) (world s) = (Inl e, w')"
     "tryProcess cb rt r s = (False, s\<lparr>world := w', calls := calls s @ [(r, False)]\<rparr>)"
  by (cases "cb (heap s r) (world s)"; cases "fst (cb (heap s r) (world s))")
     (auto simp: tryProcess_def Let_def)

lemma tryProcess_calls:
  "calls (snd (tryProcess cb rt r s)) = calls s @ [(r, fst (tryProcess cb rt r s))]"
  by (cases rule: tryProcess_cases[of cb s r rt]) auto

lemma tryProcess_frame:
  "buffers (snd (tryProcess cb rt r s)) = buffers s"
  "timers (snd (tryProcess cb rt r s)) = timers s"
  "sequenceNumber (heap (snd (tryProcess cb rt r s)) x) = sequenceNumber (heap s x)"
  "entityId (heap (snd (tryProcess cb rt r s)) x) = entityId (heap s x)"
  "x \<noteq> r \<Longrightarrow> heap (snd (tryProcess cb rt r s)) x = heap s x"
  by (cases rule: tryProcess_cases[of cb s r rt]; auto)+

lemma tryProcess_ok_heap:
  "fst (tryProcess cb rt r s) \<Longrightarrow> processed (heap (snd (tryProcess cb rt r s)) r)"
  by (cases rule: tryProcess_cases[of cb s r rt]; auto)

lemma tryProcess_fail_heap:
  "\<not> fst (tryProcess cb rt r s) \<Longrightarrow> heap (snd (tryProcess cb rt r s)) = heap s"
  by (cases rule: tryProcess_cases[of cb s r rt]; auto)

lemma drainLoop_frame:
  "drainLoop cb rt ps lps s = (ps', lps', s') \<Longrightarrow>
     buffers s' = buffers s \<and> timers s' = timers s \<and>
     sequenceNumber (heap s' x) = sequenceNumber (heap s x) \<and>
     entityId (heap s' x) = entityId (heap s x)"
proof (induction ps arbitrary: lps s)
  case Nil
  then show ?case by simp
next
  case (Cons r rs)
  show ?case
    using Cons.prems Cons.IH[of lps s]
      Cons.IH[of "sequenceNumber (heap s r)" "snd (tryProcess cb rt r s)"]
    by (auto simp del: drainLoop.simps(2) simp: drainLoop_Cons tryProcess_frame
        split: if_splits)
qed

lemma drainLoop_calls:
  "drainLoop cb rt ps lps s = (ps', lps', s') \<Longrightarrow>
     \<exists>new. calls s' = calls s @ new \<and>
     fst ` set new \<subseteq> set ps \<and>
     sorted_wrt (<) (map (\<lambda>c. sequenceNumber (heap s (fst c))) new) \<and>
     (\<forall>c \<in> set new. lps < sequenceNumber (heap s (fst c))) \<and>
     lps \<le> lps' \<and>
     (\<forall>c \<in> set new. snd c \<longrightarrow> sequenceNumber (heap s (fst c)) \<le> lps')"
proof (induction ps arbitrary: lps s)
  case Nil
  then show ?case by simp
next
  case (Cons r rs)
  let ?q = "sequenceNumber (heap s r)"
  let ?t = "tryProcess cb rt r s"
  consider (stale) "?q \<le> lps"
    | (ok) "\<not> ?q \<le> lps" "shouldProcess ?q lps" "fst ?t"
    | (fail) "\<not> ?q \<le> lps" "shouldProcess ?q lps" "\<not> fst ?t"
    | (wait) "\<not> ?q \<le> lps" "\<not> shouldProcess ?q lps"
    by blast
  then show ?case
  proof cases
    case stale
    then have "drainLoop cb rt rs lps s = (ps', lps', s')"
      using Cons.prems by (simp del: drainLoop.simps(2) add: drainLoop_Cons)
    from Cons.IH[OF this] show ?thesis by auto
  next
    case ok
    then have d: "drainLoop cb rt rs ?q (snd ?t) = (ps', lps', s')"
      using Cons.prems by (simp del: drainLoop.simps(2) add: drainLoop_Cons)
    from Cons.IH[OF d] obtain new where new:
      "calls s' = calls (snd ?t) @ new" "fst ` set new \<subseteq> set rs"
      "sorted_wrt (<) (map (\<lambda>c. sequenceNumber (heap s (fst c))) new)"
      "\<forall>c \<in> set new. ?q < sequenceNumber (heap s (fst c))"
      "?q \<le> lps'"
      "\<forall>c \<in> set new. snd c \<longrightarrow> sequenceNumber (heap s (fst c)) \<le> lps'"
      by (auto simp: tryProcess_frame)
    have c1: "calls (snd ?t) = calls s @ [(r, True)]"
      using ok tryProcess_calls[of cb rt r s] by simp
    have "calls s' = calls s @ ((r, True) # new)"
      using new(1) c1 by simp
    moreover have "fst ` set ((r, True) # new) \<subseteq> set (r # rs)"
      using new(2) by auto
    moreover have "sorted_wrt (<) (map (\<lambda>c. sequenceNumber (heap s (fst c))) ((r, True) # new))"
      using new(3,4) by auto
    moreover have "\<forall>c \<in> set ((r, True) # new). lps < sequenceNumber (heap s (fst c))"
      using new(4) ok(1) by auto
    moreover have "lps \<le> lps'" using new(5) ok(1) by simp
    moreover have "\<forall>c \<in> set ((r, True) # new). snd c \<longrightarrow> sequenceNumber (heap s (fst c)) \<le> lps'"
      using new(5,6) by auto
    ultimately show ?thesis by blast
  next
    case fail
    then have d: "ps' = r # rs" "lps' = lps" "s' = snd ?t"
      using Cons.prems by (simp_all del: drainLoop.simps(2) add: drainLoop_Cons)
    have c1: "calls (snd ?t) = calls s @ [(r, False)]"
      using fail tryProcess_calls[of cb rt r s] by simp
    show ?thesis using d c1 fail by (intro exI[of _ "[(r, False)]"]) simp
  next
    case wait
    then have d: "ps' = r # rs" "lps' = lps" "s' = s"
      using Cons.prems by (simp_all del: drainLoop.simps(2) add: drainLoop_Cons)
    then show ?thesis by simp
  qed
qed

lemma drainLoop_heap:
  "drainLoop cb rt ps lps s = (ps', lps', s') \<Longrightarrow> calls s' = calls s @ new \<Longrightarrow>
     (x, True) \<notin> set new \<Longrightarrow> heap s' x = heap s x"
proof (induction ps arbitrary: lps s new)
  case Nil
  then show ?case by simp
next
  case (Cons r rs)
  let ?q = "sequenceNumber (heap s r)"
  let ?t = "tryProcess cb rt r s"
  consider (stale) "?q \<le> lps"
    | (ok) "\<not> ?q \<le> lps" "shouldProcess ?q lps" "fst ?t"
    | (fail) "\<not> ?q \<le> lps" "shouldProcess ?q lps" "\<not> fst ?t"
    | (wait) "\<not> ?q \<le> lps" "\<not> shouldProcess ?q lps"
    by blast
  then show ?case
  proof cases
    case stale
    then have "drainLoop cb rt rs lps s = (ps', lps', s')"
      using Cons.prems by (simp del: drainLoop.simps(2) add: drainLoop_Cons)
    from Cons.IH[OF this Cons.prems(2,3)] show ?thesis .
  next
    case ok
    then have d: "drainLoop cb rt rs ?q (snd ?t) = (ps', lps', s')"
      using Cons.prems by (simp del: drainLoop.simps(2) add: drainLoop_Cons)
    have c1: "calls (snd ?t) = calls s @ [(r, True)]"
      using ok tryProcess_calls[of cb rt r s] by simp
    from drainLoop_calls[OF d] obtain new' where n': "calls s' = calls (snd ?t) @ new'"
      by blast
    then have eq: "new = (r, True) # new'"
      using c1 Cons.prems(2) by simp
    then have "(x, True) \<notin> set new'" "x \<noteq> r"
      using Cons.prems(3) by auto
    then show ?thesis
      using Cons.IH[OF d n'] by (simp add: tryProcess_frame)
  next
    case fail
    then have d: "ps' = r # rs" "lps' = lps" "s' = snd ?t"
      using Cons.prems by (simp_all del: drainLoop.simps(2) add: drainLoop_Cons)
    show ?thesis using d fail by (simp add: tryProcess_fail_heap)
  next
    case wait
    then have d: "ps' = r # rs" "lps' = lps" "s' = s"
      using Cons.prems by (simp_all del: drainLoop.simps(2) add: drainLoop_Cons)
    then show ?thesis by simp
  qed
qed

lemma drainLoop_pending:
  "drainLoop cb rt ps lps s = (ps', lps', s') \<Longrightarrow> suffix ps' ps"
proof (induction ps arbitrary: lps s)
  case Nil
  then show ?case by simp
next
  case (Cons r rs)
  show ?case
    using Cons.prems Cons.IH[of lps s]
      Cons.IH[of "sequenceNumber (heap s r)" "snd (tryProcess cb rt r s)"]
    by (auto simp del: drainLoop.simps(2) simp: drainLoop_Cons suffix_Cons
        split: if_splits)
qed

lemma addEvent_drain:
  assumes "drainLoop cb rt (sort_key (\<lambda>x. sequenceNumber (heap s x))
              (pendingEvents (bufferOf s (entityId (heap s r))) @ [r]))
              (lastProcessedSequence (bufferOf s (entityId (heap s r))))
              (s\<lparr>buffers := (buffers s)(entityId (heap s r) \<mapsto>
                   (bufferOf s (entityId (heap s r)))\<lparr>pendingEvents :=
                      sort_key (\<lambda>x. sequenceNumber (heap s x))
                        (pendingEvents (bufferOf s (entityId (heap s r))) @ [r])\<rparr>)\<rparr>)
           = (ps', lps', s')"
  shows "snd (addEvent cb rt r s) =
           s'\<lparr>buffers := (buffers s)(entityId (heap s r) \<mapsto>
                 (bufferOf s (entityId (heap s r)))\<lparr>pendingEvents := ps',
                                                        lastProcessedSequence := lps'\<rparr>),
              timers := (if ps' = [] then timers s' @ [entityId (heap s r)] else timers s')\<rparr>"
proof -
  have ne: "sort_key (\<lambda>x. sequenceNumber (heap s x))
              (pendingEvents (bufferOf s (entityId (heap s r))) @ [r]) \<noteq> []"
    by (metis length_sort list.size(3) length_append_singleton nat.distinct(1))
  have fr: "buffers s' = (buffers s)(entityId (heap s r) \<mapsto>
                   (bufferOf s (entityId (heap s r)))\<lparr>pendingEvents :=
                      sort_key (\<lambda>x. sequenceNumber (heap s x))
                        (pendingEvents (bufferOf s (entityId (heap s r))) @ [r])\<rparr>)"
    using drainLoop_frame[OF assms] by simp
  show ?thesis
    using assms ne fr
    by (simp add: addEvent_def processBufferedEvents_def Let_def bufferOf_def)
qed

lemma addEvent_step:
  fixes s :: "'w state" and r :: ref and cb :: "'w callback" and rt :: "'w runtime"
  defines "e \<equiv> entityId (heap s r)"
  defines "b0 \<equiv> bufferOf s e"
  defines "s' \<equiv> snd (addEvent cb rt r s)"
  shows "\<exists>new ps' lps'.
           calls s' = calls s @ new \<and>
           buffers s' = (buffers s)(e \<mapsto> b0\<lparr>pendingEvents := ps', lastProcessedSequence := lps'\<rparr>) \<and>
           lastProcessedSequence b0 \<le> lps' \<and>
           set ps' \<subseteq> insert r (set (pendingEvents b0)) \<and>
           fst ` set new \<subseteq> insert r (set (pendingEvents b0)) \<and>
           sorted_wrt (<) (map (\<lambda>c. sequenceNumber (heap s (fst c))) new) \<and>
           (\<forall>c \<in> set new. lastProcessedSequence b0 < sequenceNumber (heap s (fst c))) \<and>
           (\<forall>c \<in> set new. snd c \<longrightarrow> sequenceNumber (heap s (fst c)) \<le> lps') \<and>
           (\<forall>x. sequenceNumber (heap s' x) = sequenceNumber (heap s x)) \<and>
           (\<forall>x. entityId (heap s' x) = entityId (heap s x)) \<and>
           (\<forall>x. (x, True) \<notin> set new \<longrightarrow> heap s' x = heap s x)"
proof -
  let ?sorted = "sort_key (\<lambda>x. sequenceNumber (heap s x)) (pendingEvents b0 @ [r])"
  let ?s1 = "s\<lparr>buffers := (buffers s)(e \<mapsto> b0\<lparr>pendingEvents := ?sorted\<rparr>)\<rparr>"
  obtain ps' lps' s2 where d: "drainLoop cb rt ?sorted (lastProcessedSequence b0) ?s1 = (ps', lps', s2)"
    by (metis prod_cases3)
  have s': "s' = s2\<lparr>buffers := (buffers s)(e \<mapsto> b0\<lparr>pendingEvents := ps',
                                                        lastProcessedSequence := lps'\<rparr>),
              timers := (if ps' = [] then timers s2 @ [e] else timers s2)\<rparr>"
    unfolding s'_def using addEvent_drain[of cb rt s r ps' lps' s2] d
    by (simp add: e_def b0_def)
  from drainLoop_calls[OF d] obtain new where new:
    "calls s2 = calls s @ new" "fst ` set new \<subseteq> set ?sorted"
    "sorted_wrt (<) (map (\<lambda>c. sequenceNumber (heap s (fst c))) new)"
    "\<forall>c \<in> set new. lastProcessedSequence b0 < sequenceNumber (heap s (fst c))"
    "lastProcessedSequence b0 \<le> lps'"
    "\<forall>c \<in> set new. snd c \<longrightarrow> sequenceNumber (heap s (fst c)) \<le> lps'"
    by auto
  have pend: "set ps' \<subseteq> set ?sorted"
    using drainLoop_pending[OF d] by (meson set_mono_suffix)
  have fr: "\<And>x. sequenceNumber (heap s2 x) = sequenceNumber (heap s x)"
    "\<And>x. entityId (heap s2 x) = entityId (heap s x)"
    using drainLoop_frame[OF d] by simp_all
  have hp: "\<And>x. (x, True) \<notin> set new \<Longrightarrow> heap s2 x = heap s x"
    using drainLoop_heap[OF d, of new] new(1) by simp
  have "calls s' = calls s @ new" using s' new(1) by simp
  moreover have "buffers s' = (buffers s)(e \<mapsto> b0\<lparr>pendingEvents := ps', lastProcessedSequence := lps'\<rparr>)"
    using s' by simp
  moreover have "set ps' \<subseteq> insert r (set (pendingEvents b0))"
    using pend by auto
  moreover have "fst ` set new \<subseteq> insert r (set (pendingEvents b0))"
    using new(2) by auto
  moreover have "\<forall>x. sequenceNumber (heap s' x) = sequenceNumber (heap s x)"
    using s' fr by simp
  moreover have "\<forall>x. entityId (heap s' x) = entityId (heap s x)"
    using s' fr by simp
  moreover have "\<forall>x. (x, True) \<notin> set new \<longrightarrow> heap s' x = heap s x"
    using s' hp by simp
  ultimately show ?thesis using new(3,4,5,6) by blast
qed

lemma wf_bufferOf:
  "wfBuffers s \<Longrightarrow> x \<in> set (pendingEvents (bufferOf s e)) \<Longrightarrow> entityId (heap s x) = e"
  by (auto simp: wfBuffers_def bufferOf_def split: option.splits)

lemma admitInv_step:
  assumes inv: "admitInv s0 s new"
  shows "\<exists>new'. admitInv s0 (snd (addEvent cb rt r s)) (new @ new')"
proof -
  define e where "e = entityId (heap s r)"
  define b0 where "b0 = bufferOf s e"
  let ?s' = "snd (addEvent cb rt r s)"
  let ?seq = "\<lambda>c. sequenceNumber (heap s0 (fst c))"
  from inv have i:
    "calls s = calls s0 @ new" "wfBuffers s"
    "\<And>x. sequenceNumber (heap s x) = sequenceNumber (heap s0 x)"
    "\<And>x. entityId (heap s x) = entityId (heap s0 x)"
    "\<And>e. sorted_wrt (<) (processedSeqs s0 e new)"
    "\<And>c. c \<in> set new \<Longrightarrow> snd c \<Longrightarrow>
         ?seq c \<le> lastProcessedSequence (bufferOf s (entityId (heap s0 (fst c))))"
    "\<And>x. (x, True) \<notin> set new \<Longrightarrow> heap s x = heap s0 x"
    by (auto simp: admitInv_def)
  from addEvent_step[of cb rt r s, folded e_def, folded b0_def] obtain new' ps' lps' where st:
    "calls ?s' = calls s @ new'"
    "buffers ?s' = (buffers s)(e \<mapsto> b0\<lparr>pendingEvents := ps', lastProcessedSequence := lps'\<rparr>)"
    "lastProcessedSequence b0 \<le> lps'"
    "set ps' \<subseteq> insert r (set (pendingEvents b0))"
    "fst ` set new' \<subseteq> insert r (set (pendingEvents b0))"
    "sorted_wrt (<) (map (\<lambda>c. sequenceNumber (heap s (fst c))) new')"
    "\<forall>c \<in> set new'. lastProcessedSequence b0 < sequenceNumber (heap s (fst c))"
    "\<forall>c \<in> set new'. snd c \<longrightarrow> sequenceNumber (heap s (fst c)) \<le> lps'"
    "\<forall>x. sequenceNumber (heap ?s' x) = sequenceNumber (heap s x)"
    "\<forall>x. entityId (heap ?s' x) = entityId (heap s x)"
    "\<forall>x. (x, True) \<notin> set new' \<longrightarrow> heap ?s' x = heap s x"
    by blast
  have ent: "\<And>x. x \<in> insert r (set (pendingEvents b0)) \<Longrightarrow> entityId (heap s0 x) = e"
    using wf_bufferOf[OF i(2), of _ e] i(4) by (auto simp: e_def b0_def)
  have entnew: "\<And>c. c \<in> set new' \<Longrightarrow> entityId (heap s0 (fst c)) = e"
    using ent st(5) by auto
  have bo_e: "bufferOf ?s' e = b0\<lparr>pendingEvents := ps', lastProcessedSequence := lps'\<rparr>"
    using st(2) by (simp add: bufferOf_def b0_def)
  have bo_other: "\<And>e'. e' \<noteq> e \<Longrightarrow> bufferOf ?s' e' = bufferOf s e'"
    using st(2) by (simp add: bufferOf_def)
  have mono: "\<And>e'. lastProcessedSequence (bufferOf s e') \<le> lastProcessedSequence (bufferOf ?s' e')"
  proof -
    fix e'
    show "lastProcessedSequence (bufferOf s e') \<le> lastProcessedSequence (bufferOf ?s' e')"
    proof (cases "e' = e")
      case True
      then show ?thesis using st(3) by (simp only: bo_e) (simp add: b0_def)
    next
      case False
      from bo_other[OF False] show ?thesis by (simp only: order_refl)
    qed
  qed
  have c: "calls ?s' = calls s0 @ (new @ new')"
    using i(1) st(1) by simp
  have wf: "wfBuffers ?s'"
    unfolding wfBuffers_def
  proof (intro allI impI ballI)
    fix e' b x
    assume b: "buffers ?s' e' = Some b" and x: "x \<in> set (pendingEvents b)"
    show "entityId (heap ?s' x) = e'"
    proof (cases "e' = e")
      case True
      then have "b = b0\<lparr>pendingEvents := ps', lastProcessedSequence := lps'\<rparr>"
        using b st(2) by simp
      then have "x \<in> insert r (set (pendingEvents b0))"
        using x st(4) by auto
      then show ?thesis using ent st(10) i(4) True by simp
    next
      case False
      then have "buffers s e' = Some b" using b st(2) by simp
      then have "entityId (heap s x) = e'"
        using i(2) x by (auto simp: wfBuffers_def)
      then show ?thesis using st(10) by simp
    qed
  qed
  have srt: "sorted_wrt (<) (processedSeqs s0 e' (new @ new'))" for e'
  proof (cases "e' = e")
    case False
    then have "filter (\<lambda>c. snd c \<and> entityId (heap s0 (fst c)) = e') new' = []"
      using entnew by (auto simp: filter_empty_conv)
    then show ?thesis using i(5)[of e'] by (simp add: processedSeqs_def)
  next
    case True
    have a: "sorted_wrt (<) (map ?seq new')"
      using st(6) i(3) by simp
    have "sorted_wrt (\<lambda>c d. ?seq c < ?seq d) new'"
      using a by (simp add: sorted_wrt_map)
    then have "sorted_wrt (\<lambda>c d. ?seq c < ?seq d)
                 (filter (\<lambda>c. snd c \<and> entityId (heap s0 (fst c)) = e') new')"
      by (rule sorted_wrt_filter)
    then have s2: "sorted_wrt (<) (processedSeqs s0 e' new')"
      by (simp add: processedSeqs_def sorted_wrt_map)
    have cross: "x < y" if "x \<in> set (processedSeqs s0 e' new)" "y \<in> set (processedSeqs s0 e' new')" for x y
    proof -
      from that(1) obtain c where c: "c \<in> set new" "snd c" "entityId (heap s0 (fst c)) = e'" "x = ?seq c"
        by (auto simp: processedSeqs_def)
      from that(2) obtain d where d: "d \<in> set new'" "y = ?seq d"
        by (auto simp: processedSeqs_def)
      have "x \<le> lastProcessedSequence b0" using i(6)[OF c(1,2)] c(3,4) True by (simp add: b0_def)
      moreover have "lastProcessedSequence b0 < y" using st(7) d i(3) by auto
      ultimately show ?thesis by simp
    qed
    have "processedSeqs s0 e' (new @ new') = processedSeqs s0 e' new @ processedSeqs s0 e' new'"
      by (simp add: processedSeqs_def)
    then show ?thesis using i(5)[of e'] s2 cross by (simp add: sorted_wrt_append)
  qed
  have bound: "?seq c \<le> lastProcessedSequence (bufferOf ?s' (entityId (heap s0 (fst c))))"
    if "c \<in> set (new @ new')" "snd c" for c
  proof (cases "c \<in> set new'")
    case True
    then show ?thesis using st(8) that(2) entnew[OF True] bo_e i(3) by simp
  next
    case False
    then have "c \<in> set new" using that(1) by simp
    from i(6)[OF this that(2)] show ?thesis
      using mono[of "entityId (heap s0 (fst c))"] by simp
  qed
  have hp: "heap ?s' x = heap s0 x" if "(x, True) \<notin> set (new @ new')" for x
    using that st(11) i(7) by simp
  have f1: "\<forall>x. sequenceNumber (heap ?s' x) = sequenceNumber (heap s0 x)"
    using st(9) i(3) by simp
  have f2: "\<forall>x. entityId (heap ?s' x) = entityId (heap s0 x)"
    using st(10) i(4) by simp
  have "admitInv s0 ?s' (new @ new')"
    unfolding admitInv_def
    using c wf f1 f2 srt bound hp by blast
  then show ?thesis ..
qed

lemma admitInv_addEvents:
  "admitInv s0 s new \<Longrightarrow> \<exists>new'. admitInv s0 (addEvents cb rt rs s) new'"
proof (induction rs arbitrary: s new)
  case Nil
  then show ?case by auto
next
  case (Cons r rs)
  from admitInv_step[OF Cons.prems, of cb rt r] obtain new'
    where "admitInv s0 (snd (addEvent cb rt r s)) (new @ new')" by blast
  from Cons.IH[OF this] show ?case by simp
qed

lemma admitInv_init: "wfBuffers s \<Longrightarrow> admitInv s s []"
  by (simp add: admitInv_def processedSeqs_def)

lemma tryProcess_ok:
  "fst (cb (heap s r) (world s)) = Inr () \<Longrightarrow>
     tryProcess cb rt r s =
       (True, s\<lparr>heap := (heap s)(r := (heap s r)\<lparr>processed := True,
                         processedAt := Some (dateNow rt (snd (cb (heap s r) (world s))))\<rparr>),
                world := snd (cb (heap s r) (world s)),
                calls := calls s @ [(r, True)]\<rparr>)"
  by (cases "cb (heap s r) (world s)") (auto simp: tryProcess_def Let_def)

lemma tryProcess_failed:
  "fst (cb (heap s r) (world s)) = Inl e \<Longrightarrow>
     tryProcess cb rt r s =
       (False, s\<lparr>world := snd (cb (heap s r) (world s)), calls := calls s @ [(r, False)]\<rparr>)"
  by (cases "cb (heap s r) (world s)") (auto simp: tryProcess_def Let_def)

lemma drainLoop_calls_returned:
  assumes ok: "\<forall>ev w. fst (cb ev w) = Inr ()"
  shows "drainLoop cb rt ps lps s = (ps', lps', s') \<Longrightarrow>
     \<exists>new. calls s' = calls s @ new \<and> (\<forall>c \<in> set new. snd c)"
proof (induction ps arbitrary: lps s)
  case Nil
  then show ?case by simp
next
  case (Cons r rs)
  have t: "tryProcess cb rt r s =
       (True, s\<lparr>heap := (heap s)(r := (heap s r)\<lparr>processed := True,
                         processedAt := Some (dateNow rt (snd (cb (heap s r) (world s))))\<rparr>),
                world := snd (cb (heap s r) (world s)),
                calls := calls s @ [(r, True)]\<rparr>)"
    using ok by (simp add: tryProcess_ok)
  show ?case
  proof (cases "sequenceNumber (heap s r) \<le> lps")
    case True
    then have "drainLoop cb rt rs lps s = (ps', lps', s')"
      using Cons.prems by (simp del: drainLoop.simps(2) add: drainLoop_Cons)
    from Cons.IH[OF this] show ?thesis .
  next
    case False
    show ?thesis
    proof (cases "shouldProcess (sequenceNumber (heap s r)) lps")
      case True
      then have d: "drainLoop cb rt rs (sequenceNumber (heap s r)) (snd (tryProcess cb rt r s))
                  = (ps', lps', s')"
        using Cons.prems False t by (simp del: drainLoop.simps(2) add: drainLoop_Cons)
      from Cons.IH[OF d] obtain new where
        "calls s' = calls (snd (tryProcess cb rt r s)) @ new" "\<forall>c \<in> set new. snd c"
        by blast
      then have "calls s' = calls s @ ((r, True) # new) \<and> (\<forall>c \<in> set ((r, True) # new). snd c)"
        using t by simp
      then show ?thesis by blast
    next
      case nsp: False
      then have "s' = s"
        using Cons.prems False by (simp del: drainLoop.simps(2) add: drainLoop_Cons)
      then show ?thesis by simp
    qed
  qed
qed

lemma addEvent_calls_returned:
  fixes s :: "'w state"
  assumes ok: "\<forall>ev w. fst (cb ev w) = Inr ()"
  shows "\<exists>new. calls (snd (addEvent cb rt r s)) = calls s @ new \<and> (\<forall>c \<in> set new. snd c)"
proof -
  let ?e = "entityId (heap s r)"
  let ?b0 = "bufferOf s ?e"
  let ?sorted = "sort_key (\<lambda>x. sequenceNumber (heap s x)) (pendingEvents ?b0 @ [r])"
  let ?s1 = "s\<lparr>buffers := (buffers s)(?e \<mapsto> ?b0\<lparr>pendingEvents := ?sorted\<rparr>)\<rparr>"
  obtain ps' lps' s2 where d: "drainLoop cb rt ?sorted (lastProcessedSequence ?b0) ?s1 = (ps', lps', s2)"
    by (metis prod_cases3)
  from drainLoop_calls_returned[OF ok d] obtain new where
    "calls s2 = calls s @ new" "\<forall>c \<in> set new. snd c" by auto
  then show ?thesis using addEvent_drain[OF d] by simp
qed

lemma addEvents_calls_returned:
  fixes s :: "'w state"
  assumes ok: "\<forall>ev w. fst (cb ev w) = Inr ()"
  shows "\<exists>new. calls (addEvents cb rt rs s) = calls s @ new \<and> (\<forall>c \<in> set new. snd c)"
proof (induction rs arbitrary: s)
  case Nil
  then show ?case by simp
next
  case (Cons r rs)
  from addEvent_calls_returned[OF ok, of rt r s] obtain n1 where
    n1: "calls (snd (addEvent cb rt r s)) = calls s @ n1" "\<forall>c \<in> set n1. snd c" by blast
  from Cons.IH[of "snd (addEvent cb rt r s)"] obtain n2 where
    n2: "calls (addEvents cb rt rs (snd (addEvent cb rt r s))) = calls (snd (addEvent cb rt r s)) @ n2"
      "\<forall>c \<in> set n2. snd c" by blast
  have "calls (addEvents cb rt (r # rs) s) = calls s @ (n1 @ n2) \<and> (\<forall>c \<in> set (n1 @ n2). snd c)"
    using n1 n2 by auto
  then show ?case by blast
qed

lemma in_order_all:
  fixes s :: "'w state"
  assumes ok: "\<forall>ev w. fst (cb ev w) = Inr ()" and wf: "wfBuffers s"
  shows "\<exists>new. calls (addEvents cb rt rs s) = calls s @ new \<and>
           (\<forall>e. sorted_wrt (<)
                  (map (\<lambda>c. sequenceNumber (heap s (fst c)))
                     (filter (\<lambda>c. entityId (heap s (fst c)) = e) new)))"
proof -
  from admitInv_addEvents[OF admitInv_init[OF wf], of cb rt rs] obtain new
    where inv: "admitInv s (addEvents cb rt rs s) new" by blast
  then have c: "calls (addEvents cb rt rs s) = calls s @ new"
    and so: "\<forall>e. sorted_wrt (<) (processedSeqs s e new)"
    by (simp_all add: admitInv_def)
  from addEvents_calls_returned[OF ok, of rt rs s] c have "\<forall>c \<in> set new. snd c" by auto
  then have "filter (\<lambda>c. snd c \<and> entityId (heap s (fst c)) = e) new
             = filter (\<lambda>c. entityId (heap s (fst c)) = e) new" for e
    by (intro filter_cong) auto
  then show ?thesis using c so by (auto simp: processedSeqs_def)
qed

lemma replay_append:
  "replay cb rt (xs @ ys) h w =
     (case replay cb rt xs h w of
        (a1, h1, w1) \<Rightarrow>
          (case replay cb rt ys h1 w1 of (a2, h2, w2) \<Rightarrow> (a1 \<and> a2, h2, w2)))"
proof (induction xs arbitrary: h w)
  case Nil
  then show ?case by simp
next
  case (Cons c xs)
  obtain r flag where c: "c = (r, flag)" by (cases c)
  obtain res w' where cbr: "cb (h r) w = (res, w')" by (cases "cb (h r) w")
  show ?case
  proof (cases res)
    case (Inr u)
    let ?h1 = "h(r := (h r)\<lparr>processed := True, processedAt := Some (dateNow rt w')\<rparr>)"
    obtain a1 hh ww where x: "replay cb rt xs ?h1 w' = (a1, hh, ww)" by (metis prod_cases3)
    obtain a2 h2 w2 where y: "replay cb rt ys hh ww = (a2, h2, w2)" by (metis prod_cases3)
    have ih: "replay cb rt (xs @ ys) ?h1 w' = (a1 \<and> a2, h2, w2)"
      by (simp only: Cons.IH x y prod.case)
    show ?thesis
      by (simp add: c cbr Inr ih x y)
  next
    case (Inl e)
    obtain a1 hh ww where x: "replay cb rt xs h w' = (a1, hh, ww)" by (metis prod_cases3)
    obtain a2 h2 w2 where y: "replay cb rt ys hh ww = (a2, h2, w2)" by (metis prod_cases3)
    have ih: "replay cb rt (xs @ ys) h w' = (a1 \<and> a2, h2, w2)"
      by (simp only: Cons.IH x y prod.case)
    show ?thesis
      by (simp add: c cbr Inl ih x y)
  qed
qed

lemma replay_two:
  "replay cb rt n1 h w = (True, h1, w1) \<Longrightarrow> replay cb rt n2 h1 w1 = (True, h2, w2) \<Longrightarrow>
     replay cb rt (n1 @ n2) h w = (True, h2, w2)"
  by (simp add: replay_append)

lemma tryProcess_replay:
  "replay cb rt [(r, fst (tryProcess cb rt r s))] (heap s) (world s) =
     (True, heap (snd (tryProcess cb rt r s)), world (snd (tryProcess cb rt r s)))"
  by (cases rule: tryProcess_cases[of cb s r rt]) auto

lemma drainLoop_replay:
  "drainLoop cb rt ps lps s = (ps', lps', s') \<Longrightarrow>
     \<exists>new. calls s' = calls s @ new \<and>
       replay cb rt new (heap s) (world s) = (True, heap s', world s')"
proof (induction ps arbitrary: lps s)
  case Nil
  then show ?case by simp
next
  case (Cons r rs)
  let ?q = "sequenceNumber (heap s r)"
  let ?t = "tryProcess cb rt r s"
  have c1: "calls (snd ?t) = calls s @ [(r, fst ?t)]" by (rule tryProcess_calls)
  consider (stale) "?q \<le> lps"
    | (ok) "\<not> ?q \<le> lps" "shouldProcess ?q lps" "fst ?t"
    | (fail) "\<not> ?q \<le> lps" "shouldProcess ?q lps" "\<not> fst ?t"
    | (wait) "\<not> ?q \<le> lps" "\<not> shouldProcess ?q lps"
    by blast
  then show ?case
  proof cases
    case stale
    then have "drainLoop cb rt rs lps s = (ps', lps', s')"
      using Cons.prems by (simp del: drainLoop.simps(2) add: drainLoop_Cons)
    from Cons.IH[OF this] show ?thesis .
  next
    case ok
    then have d: "drainLoop cb rt rs ?q (snd ?t) = (ps', lps', s')"
      using Cons.prems by (simp del: drainLoop.simps(2) add: drainLoop_Cons)
    from Cons.IH[OF d] obtain new where new:
      "calls s' = calls (snd ?t) @ new"
      "replay cb rt new (heap (snd ?t)) (world (snd ?t)) = (True, heap s', world s')"
      by blast
    have "replay cb rt ([(r, fst ?t)] @ new) (heap s) (world s) = (True, heap s', world s')"
      using replay_two[OF tryProcess_replay new(2)] .
    moreover have "calls s' = calls s @ ([(r, fst ?t)] @ new)"
      using new(1) c1 by simp
    ultimately show ?thesis by blast
  next
    case fail
    then have d: "s' = snd ?t"
      using Cons.prems by (simp_all del: drainLoop.simps(2) add: drainLoop_Cons)
    show ?thesis
      using tryProcess_replay[of cb rt r s] c1 d by blast
  next
    case wait
    then have d: "s' = s"
      using Cons.prems by (simp_all del: drainLoop.simps(2) add: drainLoop_Cons)
    then show ?thesis by simp
  qed
qed

lemma addEvent_replay:
  fixes s :: "'w state"
  shows "\<exists>new. calls (snd (addEvent cb rt r s)) = calls s @ new \<and>
       replay cb rt new (heap s) (world s) =
         (True, heap (snd (addEvent cb rt r s)), world (snd (addEvent cb rt r s)))"
proof -
  let ?e = "entityId (heap s r)"
  let ?b0 = "bufferOf s ?e"
  let ?sorted = "sort_key (\<lambda>x. sequenceNumber (heap s x)) (pendingEvents ?b0 @ [r])"
  let ?s1 = "s\<lparr>buffers := (buffers s)(?e \<mapsto> ?b0\<lparr>pendingEvents := ?sorted\<rparr>)\<rparr>"
  obtain ps' lps' s2 where d: "drainLoop cb rt ?sorted (lastProcessedSequence ?b0) ?s1 = (ps', lps', s2)"
    by (metis prod_cases3)
  from drainLoop_replay[OF d] obtain new where
    "calls s2 = calls s @ new" "replay cb rt new (heap s) (world s) = (True, heap s2, world s2)"
    by auto
  then show ?thesis using addEvent_drain[OF d] by simp
qed

lemma addEvents_replay:
  fixes s :: "'w state"
  shows "\<exists>new. calls (addEvents cb rt rs s) = calls s @ new \<and>
       replay cb rt new (heap s) (world s) =
         (True, heap (addEvents cb rt rs s), world (addEvents cb rt rs s))"
proof (induction rs arbitrary: s)
  case Nil
  then show ?case by simp
next
  case (Cons r rs)
  let ?s1 = "snd (addEvent cb rt r s)"
  from addEvent_replay[of cb rt r s] obtain n1 where
    n1: "calls ?s1 = calls s @ n1" "replay cb rt n1 (heap s) (world s) = (True, heap ?s1, world ?s1)"
    by blast
  from Cons.IH[of ?s1] obtain n2 where
    n2: "calls (addEvents cb rt rs ?s1) = calls ?s1 @ n2"
      "replay cb rt n2 (heap ?s1) (world ?s1) =
         (True, heap (addEvents cb rt rs ?s1), world (addEvents cb rt rs ?s1))"
    by blast
  have "calls (addEvents cb rt (r # rs) s) = calls s @ (n1 @ n2)"
    using n1(1) n2(1) by simp
  moreover have "replay cb rt (n1 @ n2) (heap s) (world s) =
         (True, heap (addEvents cb rt (r # rs) s), world (addEvents cb rt (r # rs) s))"
    using replay_two[OF n1(2) n2(2)] by simp
  ultimately show ?case by blast
qed

section \<open>In-order release\<close>

text \<open>
  C1. Within one entity the buffer hands events to the processing callback in strictly
  ascending order of sequence number, and marks an event \<open>processed\<close> only after the
  callback has returned on it. First conjunct: for any callback and any run of
  admissions, the trace the run adds is the record of what the callback did: replayed
  against the callback from the store and the world before the run, each entry flagged
  \<open>True\<close> is an event on which the callback returned and each entry flagged \<open>False\<close> one
  on which it threw, in the worlds that the earlier entries left, and the replay ends in
  the store and the world that the run ends in. Second conjunct: from any state whose
  buffers hold events of their own entity only, the events of each entity on which the
  callback returned were passed in strictly ascending sequence order, and an event object
  that the run has marked \<open>processed\<close> is one of them. Third conjunct: with a callback that
  never throws, all the invocations of the run, entity by entity, are in strictly
  ascending sequence order. Fourth conjunct: with a callback that never throws,
  admitting the events numbered 3, 1, 2 of one entity, in that order, into a service with
  no buffer for the entity makes exactly three invocations, on the events numbered 1, 2,
  3 in that order: the world at the end is what the callback makes of the world at the
  start when applied to the event numbered 1, then 2, then 3; and all three events end up
  marked \<open>processed\<close>.
\<close>

theorem C1_in_order_release:
  "(\<exists>new. calls (addEvents cb rt rs s) = calls s @ new \<and>
      replay cb rt new (heap s) (world s) =
        (True, heap (addEvents cb rt rs s), world (addEvents cb rt rs s)))
   \<and>
   (wfBuffers s \<longrightarrow>
      (\<exists>new. calls (addEvents cb rt rs s) = calls s @ new \<and>
         replay cb rt new (heap s) (world s) =
           (True, heap (addEvents cb rt rs s), world (addEvents cb rt rs s)) \<and>
         (\<forall>e. sorted_wrt (<) (processedSeqs s e new)) \<and>
         (\<forall>x. processed (heap (addEvents cb rt rs s) x) \<longrightarrow>
                processed (heap s x) \<or> (x, True) \<in> set new)))
   \<and>
   ((\<forall>ev w. fst (cb ev w) = Inr ()) \<and> wfBuffers s \<longrightarrow>
      (\<exists>new. calls (addEvents cb rt rs s) = calls s @ new \<and>
         replay cb rt new (heap s) (world s) =
           (True, heap (addEvents cb rt rs s), world (addEvents cb rt rs s)) \<and>
         (\<forall>e. sorted_wrt (<)
                (map (\<lambda>c. sequenceNumber (heap s (fst c)))
                   (filter (\<lambda>c. entityId (heap s (fst c)) = e) new)))))
   \<and>
   ((\<forall>ev w. fst (cb ev w) = Inr ()) \<and> buffers s eid = None \<and>
    entityId (heap s r3) = eid \<and> entityId (heap s r1) = eid \<and> entityId (heap s r2) = eid \<and>
    sequenceNumber (heap s r3) = 3 \<and> sequenceNumber (heap s r1) = 1 \<and>
    sequenceNumber (heap s r2) = 2 \<longrightarrow>
      calls (addEvents cb rt [r3, r1, r2] s) = calls s @ [(r1, True), (r2, True), (r3, True)] \<and>
      world (addEvents cb rt [r3, r1, r2] s) =
        snd (cb (heap s r3) (snd (cb (heap s r2) (snd (cb (heap s r1) (world s)))))) \<and>
      processed (heap (addEvents cb rt [r3, r1, r2] s) r1) \<and>
      processed (heap (addEvents cb rt [r3, r1, r2] s) r2) \<and>
      processed (heap (addEvents cb rt [r3, r1, r2] s) r3))"
proof (intro conjI impI)
  show "\<exists>new. calls (addEvents cb rt rs s) = calls s @ new \<and>
      replay cb rt new (heap s) (world s) =
        (True, heap (addEvents cb rt rs s), world (addEvents cb rt rs s))"
    by (rule addEvents_replay)
next
  assume "wfBuffers s"
  then have "admitInv s s []" by (rule admitInv_init)
  from admitInv_addEvents[OF this, of cb rt rs] obtain new
    where inv: "admitInv s (addEvents cb rt rs s) new" by blast
  then have c: "calls (addEvents cb rt rs s) = calls s @ new"
    and so: "\<forall>e. sorted_wrt (<) (processedSeqs s e new)"
    and hp: "\<forall>x. (x, True) \<notin> set new \<longrightarrow> heap (addEvents cb rt rs s) x = heap s x"
    by (simp_all add: admitInv_def)
  from addEvents_replay[of cb rt rs s] c
  have rp: "replay cb rt new (heap s) (world s) =
           (True, heap (addEvents cb rt rs s), world (addEvents cb rt rs s))"
    by auto
  have pr: "\<forall>x. processed (heap (addEvents cb rt rs s) x) \<longrightarrow>
                processed (heap s x) \<or> (x, True) \<in> set new"
    using hp by auto
  show "\<exists>new. calls (addEvents cb rt rs s) = calls s @ new \<and>
         replay cb rt new (heap s) (world s) =
           (True, heap (addEvents cb rt rs s), world (addEvents cb rt rs s)) \<and>
         (\<forall>e. sorted_wrt (<) (processedSeqs s e new)) \<and>
         (\<forall>x. processed (heap (addEvents cb rt rs s) x) \<longrightarrow>
                processed (heap s x) \<or> (x, True) \<in> set new)"
    using c rp so pr by blast
next
  assume "(\<forall>ev w. fst (cb ev w) = Inr ()) \<and> wfBuffers s"
  then obtain new where c: "calls (addEvents cb rt rs s) = calls s @ new"
    and so: "\<forall>e. sorted_wrt (<)
                (map (\<lambda>c. sequenceNumber (heap s (fst c)))
                   (filter (\<lambda>c. entityId (heap s (fst c)) = e) new))"
    using in_order_all[of cb s rt rs] by blast
  from addEvents_replay[of cb rt rs s] c
  have rp: "replay cb rt new (heap s) (world s) =
           (True, heap (addEvents cb rt rs s), world (addEvents cb rt rs s))"
    by auto
  show "\<exists>new. calls (addEvents cb rt rs s) = calls s @ new \<and>
         replay cb rt new (heap s) (world s) =
           (True, heap (addEvents cb rt rs s), world (addEvents cb rt rs s)) \<and>
         (\<forall>e. sorted_wrt (<)
                (map (\<lambda>c. sequenceNumber (heap s (fst c)))
                   (filter (\<lambda>c. entityId (heap s (fst c)) = e) new)))"
    using c rp so by blast
next
  assume h: "(\<forall>ev w. fst (cb ev w) = Inr ()) \<and> buffers s eid = None \<and>
    entityId (heap s r3) = eid \<and> entityId (heap s r1) = eid \<and> entityId (heap s r2) = eid \<and>
    sequenceNumber (heap s r3) = 3 \<and> sequenceNumber (heap s r1) = 1 \<and>
    sequenceNumber (heap s r2) = 2"
  then have ne: "r1 \<noteq> r2" "r1 \<noteq> r3" "r2 \<noteq> r3" by auto
  have all: "calls (addEvents cb rt [r3, r1, r2] s) = calls s @ [(r1, True), (r2, True), (r3, True)] \<and>
      world (addEvents cb rt [r3, r1, r2] s) =
        snd (cb (heap s r3) (snd (cb (heap s r2) (snd (cb (heap s r1) (world s)))))) \<and>
      processed (heap (addEvents cb rt [r3, r1, r2] s) r1) \<and>
      processed (heap (addEvents cb rt [r3, r1, r2] s) r2) \<and>
      processed (heap (addEvents cb rt [r3, r1, r2] s) r3)"
    using h ne
    by (simp add: addEvent_def processBufferedEvents_def Let_def tryProcess_ok)
  show "calls (addEvents cb rt [r3, r1, r2] s) = calls s @ [(r1, True), (r2, True), (r3, True)]"
    "world (addEvents cb rt [r3, r1, r2] s) =
        snd (cb (heap s r3) (snd (cb (heap s r2) (snd (cb (heap s r1) (world s))))))"
    "processed (heap (addEvents cb rt [r3, r1, r2] s) r1)"
    "processed (heap (addEvents cb rt [r3, r1, r2] s) r2)"
    "processed (heap (addEvents cb rt [r3, r1, r2] s) r3)"
    using all by simp_all
qed

theorem C1_in_order_release_witness:
  "calls (addEvents recordingCallback stillRuntime [0, 1, 2] (startState [] [3, 1, 2]))
     = [(1, True), (2, True), (0, True)] \<and>
   world (addEvents recordingCallback stillRuntime [0, 1, 2] (startState [] [3, 1, 2]))
     = [1, 2, 3] \<and>
   replay recordingCallback stillRuntime [(1, True), (2, True), (0, True)]
       (testHeap [3, 1, 2]) []
     = (True, heap (addEvents recordingCallback stillRuntime [0, 1, 2] (startState [] [3, 1, 2])),
        [1, 2, 3]) \<and>
   sorted_wrt (<) (processedSeqs (startState ([] :: int list) [3, 1, 2]) ''test-entity-1''
     (calls (addEvents recordingCallback stillRuntime [0, 1, 2] (startState [] [3, 1, 2])))) \<and>
   processedSeqs (startState ([] :: int list) [3, 1, 2]) ''test-entity-1''
     (calls (addEvents recordingCallback stillRuntime [0, 1, 2] (startState [] [3, 1, 2])))
     = [1, 2, 3] \<and>
   sorted_wrt (<)
     (map (\<lambda>c. sequenceNumber (heap (startState ([] :: int list) [3, 1, 2]) (fst c)))
        (filter (\<lambda>c. entityId (heap (startState ([] :: int list) [3, 1, 2]) (fst c))
                       = ''test-entity-1'')
           (calls (addEvents recordingCallback stillRuntime [0, 1, 2]
                     (startState [] [3, 1, 2]))))) \<and>
   processed (heap (addEvents recordingCallback stillRuntime [0, 1, 2]
                      (startState [] [3, 1, 2])) 0)"
proof -
  let ?s = "startState ([] :: int list) [3, 1, 2]"
  let ?s' = "addEvents recordingCallback stillRuntime [0, 1, 2] ?s"
  have wf: "wfBuffers ?s"
    by (simp add: wfBuffers_def startState_def)
  have hyp: "(\<forall>ev w. fst (recordingCallback ev w) = Inr ()) \<and>
    buffers ?s ''test-entity-1'' = None \<and>
    entityId (heap ?s 0) = ''test-entity-1'' \<and>
    entityId (heap ?s 1) = ''test-entity-1'' \<and>
    entityId (heap ?s 2) = ''test-entity-1'' \<and>
    sequenceNumber (heap ?s 0) = 3 \<and>
    sequenceNumber (heap ?s 1) = 1 \<and>
    sequenceNumber (heap ?s 2) = 2"
    by (simp add: recordingCallback_def startState_def testHeap_def testEvent_def)
  have c: "calls ?s = []" "heap ?s = testHeap [3, 1, 2]" "world ?s = []"
    by (simp_all add: startState_def)
  note t = C1_in_order_release[of recordingCallback stillRuntime "[0, 1, 2]" ?s
      "''test-entity-1''" 0 1 2]
  from t hyp
  have tr: "calls ?s' = calls ?s @ [(1, True), (2, True), (0, True)]"
    and wo: "world ?s' = snd (recordingCallback (heap ?s 0)
               (snd (recordingCallback (heap ?s 2)
                  (snd (recordingCallback (heap ?s 1) (world ?s))))))"
    and pr: "processed (heap ?s' 0)"
    by blast+
  have wo': "world ?s' = [1, 2, 3]"
    using wo by (simp add: recordingCallback_def startState_def testHeap_def testEvent_def)
  from t wf obtain new where new: "calls ?s' = calls ?s @ new"
    "replay recordingCallback stillRuntime new (heap ?s) (world ?s) = (True, heap ?s', world ?s')"
    "\<forall>e. sorted_wrt (<) (processedSeqs ?s e new)"
    by blast
  from t wf hyp obtain new' where new': "calls ?s' = calls ?s @ new'"
    "\<forall>e. sorted_wrt (<)
        (map (\<lambda>c. sequenceNumber (heap ?s (fst c)))
           (filter (\<lambda>c. entityId (heap ?s (fst c)) = e) new'))"
    by blast
  have tr': "calls ?s' = [(1, True), (2, True), (0, True)]"
    using tr by (simp only: c append_Nil)
  have n': "new' = calls ?s'" using new'(1) by (simp only: c append_Nil)
  have al: "sorted_wrt (<)
        (map (\<lambda>c. sequenceNumber (heap ?s (fst c)))
           (filter (\<lambda>c. entityId (heap ?s (fst c)) = ''test-entity-1'') (calls ?s')))"
    using new'(2) unfolding n' by blast
  have n: "new = calls ?s'" using new(1) by (simp only: c append_Nil)
  have so: "sorted_wrt (<) (processedSeqs ?s ''test-entity-1'' (calls ?s'))"
    using new(3) unfolding n by blast
  have rp: "replay recordingCallback stillRuntime [(1, True), (2, True), (0, True)]
              (testHeap [3, 1, 2]) [] = (True, heap ?s', [1, 2, 3])"
    using new(2) unfolding n by (simp only: tr' wo' c)
  have ps: "processedSeqs ?s ''test-entity-1'' (calls ?s') = [1, 2, 3]"
    unfolding tr' by (simp add: processedSeqs_def startState_def testHeap_def testEvent_def)
  show ?thesis
    by (intro conjI) (rule tr' wo' rp pr so ps al)+
qed

section \<open>More on the drain loop\<close>

lemma drainLoop_stale:
  "\<forall>x \<in> set xs. sequenceNumber (heap s x) \<le> lps \<Longrightarrow>
     drainLoop cb rt (xs @ ys) lps s = drainLoop cb rt ys lps s"
  by (induction xs) (simp_all del: drainLoop.simps(2) add: drainLoop_Cons)

lemma drainLoop_dropWhile:
  "drainLoop cb rt ps lps s =
     drainLoop cb rt (dropWhile (\<lambda>x. sequenceNumber (heap s x) \<le> lps) ps) lps s"
proof -
  have "drainLoop cb rt (takeWhile (\<lambda>x. sequenceNumber (heap s x) \<le> lps) ps
          @ dropWhile (\<lambda>x. sequenceNumber (heap s x) \<le> lps) ps) lps s =
        drainLoop cb rt (dropWhile (\<lambda>x. sequenceNumber (heap s x) \<le> lps) ps) lps s"
    by (rule drainLoop_stale) (auto dest: set_takeWhileD)
  then show ?thesis by simp
qed

lemma sorted_dropWhile_above:
  "sorted (map f ps) \<Longrightarrow> x \<in> set (dropWhile (\<lambda>x. f x \<le> k) ps) \<Longrightarrow> (k::int) < f x"
proof (induction ps)
  case Nil
  then show ?case by simp
next
  case (Cons a ps)
  show ?case
  proof (cases "f a \<le> k")
    case True
    then show ?thesis using Cons by simp
  next
    case False
    then have "x = a \<or> x \<in> set ps" using Cons.prems(2) by simp
    then show ?thesis using False Cons.prems(1) by auto
  qed
qed

lemma addEvent_live:
  fixes s :: "'w state" and r :: ref and cb :: "'w callback" and rt :: "'w runtime"
  defines "e \<equiv> entityId (heap s r)"
  defines "b0 \<equiv> bufferOf s e"
  defines "live \<equiv> dropWhile (\<lambda>x. sequenceNumber (heap s x) \<le> lastProcessedSequence b0)
                     (sort_key (\<lambda>x. sequenceNumber (heap s x)) (pendingEvents b0 @ [r]))"
  assumes d: "drainLoop cb rt live (lastProcessedSequence b0)
                (s\<lparr>buffers := (buffers s)(e \<mapsto> b0\<lparr>pendingEvents :=
                      sort_key (\<lambda>x. sequenceNumber (heap s x)) (pendingEvents b0 @ [r])\<rparr>)\<rparr>)
              = (ps', lps', s')"
  shows "snd (addEvent cb rt r s) =
           s'\<lparr>buffers := (buffers s)(e \<mapsto> b0\<lparr>pendingEvents := ps',
                                               lastProcessedSequence := lps'\<rparr>),
              timers := (if ps' = [] then timers s' @ [e] else timers s')\<rparr>"
proof -
  let ?sorted = "sort_key (\<lambda>x. sequenceNumber (heap s x)) (pendingEvents b0 @ [r])"
  let ?s1 = "s\<lparr>buffers := (buffers s)(e \<mapsto> b0\<lparr>pendingEvents := ?sorted\<rparr>)\<rparr>"
  have "drainLoop cb rt ?sorted (lastProcessedSequence b0) ?s1 = (ps', lps', s')"
    using d drainLoop_dropWhile[of cb rt ?sorted "lastProcessedSequence b0" ?s1]
    by (simp add: live_def)
  then show ?thesis
    using addEvent_drain[of cb rt s r ps' lps' s'] by (simp add: e_def b0_def)
qed

lemma live_above:
  "x \<in> set (dropWhile (\<lambda>x. sequenceNumber (heap s x) \<le> k)
              (sort_key (\<lambda>x. sequenceNumber (heap s x)) ps)) \<Longrightarrow>
     k < sequenceNumber (heap s x)"
  by (rule sorted_dropWhile_above[of "\<lambda>x. sequenceNumber (heap s x)"]) simp_all

lemma shouldProcess_above: "shouldProcess q lps \<Longrightarrow> lps < q"
  by (auto simp: shouldProcess_def)

lemma drainLoop_head_throws:
  assumes "shouldProcess (sequenceNumber (heap s h)) lps"
    and "fst (cb (heap s h) (world s)) = Inl err"
  shows "drainLoop cb rt (h # rest) lps s =
           (h # rest, lps, s\<lparr>world := snd (cb (heap s h) (world s)),
                              calls := calls s @ [(h, False)]\<rparr>)"
  using assms shouldProcess_above[OF assms(1)]
  by (simp del: drainLoop.simps(2) add: drainLoop_Cons tryProcess_failed)

lemmas test_defs =
  returningCallback_def throwingCallback_def testRuntime_def freshState_def testHeap_def
  testEvent_def

section \<open>Gaps\<close>



section \<open>Duplicates\<close>

text \<open>
  C3. An admitted event whose sequence number is at most the \<open>lastProcessedSequence\<close> of
  its entity's buffer is dropped by the drain loop: the callback is not invoked on it, it
  is not among the pending events afterwards, and its object is left as it was (not
  marked \<open>processed\<close>). So admitting two events numbered 1 of one entity, one after the
  other (no cleanup timer firing in between), into a service with no buffer for the
  entity, the callback returning on the first, makes exactly one invocation, on the
  first.
\<close>

theorem C3_duplicates_discarded:
  "(sequenceNumber (heap s r) \<le> lastProcessedSequence (bufferOf s (entityId (heap s r))) \<longrightarrow>
      (\<exists>new. calls (snd (addEvent cb rt r s)) = calls s @ new \<and>
         r \<notin> fst ` set new \<and>
         r \<notin> set (pendingEvents (bufferOf (snd (addEvent cb rt r s)) (entityId (heap s r)))) \<and>
         heap (snd (addEvent cb rt r s)) r = heap s r))
   \<and>
   (buffers s eid = None \<and> entityId (heap s r1) = eid \<and> entityId (heap s r2) = eid \<and>
    sequenceNumber (heap s r1) = 1 \<and> sequenceNumber (heap s r2) = 1 \<and>
    fst (cb (heap s r1) (world s)) = Inr () \<longrightarrow>
      calls (addEvents cb rt [r1, r2] s) = calls s @ [(r1, True)] \<and>
      buffers (addEvents cb rt [r1, r2] s) eid =
        Some \<lparr>bufEntityId = eid, pendingEvents = [], lastProcessedSequence = 1\<rparr>)"
proof (intro conjI impI)
  let ?e = "entityId (heap s r)"
  let ?b0 = "bufferOf s ?e"
  let ?sorted = "sort_key (\<lambda>x. sequenceNumber (heap s x)) (pendingEvents ?b0 @ [r])"
  let ?live = "dropWhile (\<lambda>x. sequenceNumber (heap s x) \<le> lastProcessedSequence ?b0) ?sorted"
  let ?s1 = "s\<lparr>buffers := (buffers s)(?e \<mapsto> ?b0\<lparr>pendingEvents := ?sorted\<rparr>)\<rparr>"
  let ?s' = "snd (addEvent cb rt r s)"
  assume stale: "sequenceNumber (heap s r) \<le> lastProcessedSequence ?b0"
  obtain ps' lps' s2 where d: "drainLoop cb rt ?live (lastProcessedSequence ?b0) ?s1 = (ps', lps', s2)"
    by (metis prod_cases3)
  have s': "?s' = s2\<lparr>buffers := (buffers s)(?e \<mapsto> ?b0\<lparr>pendingEvents := ps',
                                               lastProcessedSequence := lps'\<rparr>),
              timers := (if ps' = [] then timers s2 @ [?e] else timers s2)\<rparr>"
    using addEvent_live[OF d] .
  have notlive: "r \<notin> set ?live"
    using live_above[of r s "lastProcessedSequence ?b0"] stale by fastforce
  from drainLoop_calls[OF d] obtain new where new:
    "calls s2 = calls s @ new" "fst ` set new \<subseteq> set ?live"
    by auto
  have "set ps' \<subseteq> set ?live"
    using drainLoop_pending[OF d] by (meson set_mono_suffix)
  then have p: "r \<notin> set ps'" using notlive by auto
  have n: "r \<notin> fst ` set new" using new(2) notlive by auto
  then have "(r, True) \<notin> set new" by force
  then have h: "heap s2 r = heap s r"
    using drainLoop_heap[OF d, of new r] new(1) by simp
  have "calls ?s' = calls s @ new" using s' new(1) by simp
  moreover have "r \<notin> set (pendingEvents (bufferOf ?s' ?e))"
    using s' p by (simp add: bufferOf_def)
  moreover have "heap ?s' r = heap s r" using s' h by simp
  ultimately show "\<exists>new. calls ?s' = calls s @ new \<and> r \<notin> fst ` set new \<and>
         r \<notin> set (pendingEvents (bufferOf ?s' ?e)) \<and> heap ?s' r = heap s r"
    using n by blast
next
  assume h: "buffers s eid = None \<and> entityId (heap s r1) = eid \<and> entityId (heap s r2) = eid \<and>
    sequenceNumber (heap s r1) = 1 \<and> sequenceNumber (heap s r2) = 1 \<and>
    fst (cb (heap s r1) (world s)) = Inr ()"
  have all: "calls (addEvents cb rt [r1, r2] s) = calls s @ [(r1, True)] \<and>
      buffers (addEvents cb rt [r1, r2] s) eid =
        Some \<lparr>bufEntityId = eid, pendingEvents = [], lastProcessedSequence = 1\<rparr>"
    using h
    by (cases "r1 = r2")
       (simp_all add: addEvent_def processBufferedEvents_def Let_def tryProcess_ok)
  show "calls (addEvents cb rt [r1, r2] s) = calls s @ [(r1, True)]"
    "buffers (addEvents cb rt [r1, r2] s) eid =
        Some \<lparr>bufEntityId = eid, pendingEvents = [], lastProcessedSequence = 1\<rparr>"
    using all by simp_all
qed

theorem C3_duplicates_discarded_witness:
  "calls (addEvents returningCallback testRuntime [0, 1] (freshState [1, 1])) = [(0, True)] \<and>
   pendingEvents (bufferOf (addEvents returningCallback testRuntime [0, 1] (freshState [1, 1]))
                    ''test-entity-1'') = [] \<and>
   heap (addEvents returningCallback testRuntime [0, 1] (freshState [1, 1])) 1 = testEvent 1"
proof -
  let ?s = "freshState [1, 1]"
  let ?s1 = "snd (addEvent returningCallback testRuntime 0 ?s)"
  have s1: "buffers ?s1 ''test-entity-1'' =
              Some \<lparr>bufEntityId = ''test-entity-1'', pendingEvents = [], lastProcessedSequence = 1\<rparr>"
       "heap ?s1 1 = testEvent 1" "calls ?s1 = [(0, True)]"
    by (simp_all add: addEvent_def processBufferedEvents_def Let_def tryProcess_def test_defs)
  have stale: "sequenceNumber (heap ?s1 1)
                 \<le> lastProcessedSequence (bufferOf ?s1 (entityId (heap ?s1 1)))"
    using s1 by (simp add: bufferOf_def testEvent_def)
  have hyp: "buffers ?s ''test-entity-1'' = None \<and> entityId (heap ?s 0) = ''test-entity-1'' \<and>
    entityId (heap ?s 1) = ''test-entity-1'' \<and>
    sequenceNumber (heap ?s 0) = 1 \<and> sequenceNumber (heap ?s 1) = 1 \<and>
    fst (returningCallback (heap ?s 0) (world ?s)) = Inr ()"
    by (simp add: test_defs)
  from C3_duplicates_discarded[of ?s1 1 returningCallback testRuntime "''test-entity-1''" 0 1] stale
  obtain new where new: "calls (snd (addEvent returningCallback testRuntime 1 ?s1)) = calls ?s1 @ new"
     "heap (snd (addEvent returningCallback testRuntime 1 ?s1)) 1 = heap ?s1 1"
    by blast
  from C3_duplicates_discarded[of ?s 0 returningCallback testRuntime "''test-entity-1''" 0 1] hyp
  have c: "calls (addEvents returningCallback testRuntime [0, 1] ?s) = calls ?s @ [(0, True)]"
    and b: "buffers (addEvents returningCallback testRuntime [0, 1] ?s) ''test-entity-1'' =
        Some \<lparr>bufEntityId = ''test-entity-1'', pendingEvents = [], lastProcessedSequence = 1\<rparr>"
    by blast+
  show ?thesis
    using c b new(2) s1(2) by (simp add: bufferOf_def freshState_def)
qed

section \<open>A callback that throws\<close>

text \<open>
  C6. \<^verbatim>\<open>addEvent\<close> always resolves. When the callback throws on the head event that the
  loop hands to it, the loop ends with that event in front of the pending events, with
  \<open>lastProcessedSequence\<close> and every event object (so the event's \<open>processed\<close> flag) as
  they were; the trace has the one failed invocation. Third conjunct: the same for
  \<^verbatim>\<open>addEvent\<close> as a whole, when the first event left after sorting and after dropping
  the stale ones is one the loop processes and the callback throws on it.
\<close>

theorem C6_callback_failure:
  "fst (addEvent cb rt r s) = Inr ()
   \<and>
   (shouldProcess (sequenceNumber (heap s h)) lps \<and> fst (cb (heap s h) (world s)) = Inl err \<longrightarrow>
      drainLoop cb rt (h # rest) lps s =
        (h # rest, lps, s\<lparr>world := snd (cb (heap s h) (world s)),
                           calls := calls s @ [(h, False)]\<rparr>))
   \<and>
   (dropWhile (\<lambda>x. sequenceNumber (heap s x)
                     \<le> lastProcessedSequence (bufferOf s (entityId (heap s r))))
      (sort_key (\<lambda>x. sequenceNumber (heap s x))
         (pendingEvents (bufferOf s (entityId (heap s r))) @ [r])) = h # rest \<and>
    shouldProcess (sequenceNumber (heap s h))
      (lastProcessedSequence (bufferOf s (entityId (heap s r)))) \<and>
    fst (cb (heap s h) (world s)) = Inl err \<longrightarrow>
      buffers (snd (addEvent cb rt r s)) =
        (buffers s)(entityId (heap s r) \<mapsto>
           (bufferOf s (entityId (heap s r)))\<lparr>pendingEvents := h # rest\<rparr>) \<and>
      heap (snd (addEvent cb rt r s)) = heap s \<and>
      calls (snd (addEvent cb rt r s)) = calls s @ [(h, False)])"
proof (intro conjI impI)
  show "fst (addEvent cb rt r s) = Inr ()"
    by (simp add: addEvent_def Let_def)
next
  assume "shouldProcess (sequenceNumber (heap s h)) lps \<and> fst (cb (heap s h) (world s)) = Inl err"
  then show "drainLoop cb rt (h # rest) lps s =
        (h # rest, lps, s\<lparr>world := snd (cb (heap s h) (world s)),
                           calls := calls s @ [(h, False)]\<rparr>)"
    using drainLoop_head_throws by blast
next
  let ?e = "entityId (heap s r)"
  let ?b0 = "bufferOf s ?e"
  let ?sorted = "sort_key (\<lambda>x. sequenceNumber (heap s x)) (pendingEvents ?b0 @ [r])"
  let ?s1 = "s\<lparr>buffers := (buffers s)(?e \<mapsto> ?b0\<lparr>pendingEvents := ?sorted\<rparr>)\<rparr>"
  assume a: "dropWhile (\<lambda>x. sequenceNumber (heap s x) \<le> lastProcessedSequence ?b0) ?sorted = h # rest \<and>
    shouldProcess (sequenceNumber (heap s h)) (lastProcessedSequence ?b0) \<and>
    fst (cb (heap s h) (world s)) = Inl err"
  have d: "drainLoop cb rt
             (dropWhile (\<lambda>x. sequenceNumber (heap s x) \<le> lastProcessedSequence ?b0) ?sorted)
             (lastProcessedSequence ?b0) ?s1 =
           (h # rest, lastProcessedSequence ?b0,
            ?s1\<lparr>world := snd (cb (heap ?s1 h) (world ?s1)), calls := calls ?s1 @ [(h, False)]\<rparr>)"
    using a drainLoop_head_throws[of ?s1 h "lastProcessedSequence ?b0" cb err rt rest]
    by simp
  have s': "snd (addEvent cb rt r s) =
          (?s1\<lparr>world := snd (cb (heap ?s1 h) (world ?s1)), calls := calls ?s1 @ [(h, False)]\<rparr>)
             \<lparr>buffers := (buffers s)(?e \<mapsto> ?b0\<lparr>pendingEvents := h # rest,
                              lastProcessedSequence := lastProcessedSequence ?b0\<rparr>),
              timers := timers s\<rparr>"
    using addEvent_live[OF d] by simp
  show "buffers (snd (addEvent cb rt r s)) =
        (buffers s)(?e \<mapsto> ?b0\<lparr>pendingEvents := h # rest\<rparr>)"
    by (simp add: s')
  show "heap (snd (addEvent cb rt r s)) = heap s"
    by (simp add: s')
  show "calls (snd (addEvent cb rt r s)) = calls s @ [(h, False)]"
    by (simp add: s')
qed

theorem C6_callback_failure_witness:
  "fst (drainLoop throwingCallback testRuntime [0] 0 (freshState [1])) = [0] \<and>
   fst (addEvent throwingCallback testRuntime 0 (freshState [1])) = Inr () \<and>
   calls (snd (addEvent throwingCallback testRuntime 0 (freshState [1]))) = [(0, False)] \<and>
   buffers (snd (addEvent throwingCallback testRuntime 0 (freshState [1]))) ''test-entity-1'' =
     Some \<lparr>bufEntityId = ''test-entity-1'', pendingEvents = [0], lastProcessedSequence = 0\<rparr> \<and>
   heap (snd (addEvent throwingCallback testRuntime 0 (freshState [1]))) 0 = testEvent 1"
proof -
  let ?s = "freshState [1]"
  let ?err = "Error ''Error'' ''Processing failed'' None"
  have hyp: "dropWhile (\<lambda>x. sequenceNumber (heap ?s x)
                     \<le> lastProcessedSequence (bufferOf ?s (entityId (heap ?s 0))))
      (sort_key (\<lambda>x. sequenceNumber (heap ?s x))
         (pendingEvents (bufferOf ?s (entityId (heap ?s 0))) @ [0])) = 0 # [] \<and>
    shouldProcess (sequenceNumber (heap ?s 0))
      (lastProcessedSequence (bufferOf ?s (entityId (heap ?s 0)))) \<and>
    fst (throwingCallback (heap ?s 0) (world ?s)) = Inl ?err"
    by (simp add: test_defs bufferOf_def shouldProcess_def)
  note t = C6_callback_failure[of throwingCallback testRuntime 0 ?s 0 0 ?err "[]"]
  have a: "fst (addEvent throwingCallback testRuntime 0 ?s) = Inr ()"
    using t by blast
  have hyp0: "shouldProcess (sequenceNumber (heap ?s 0)) 0 \<and>
              fst (throwingCallback (heap ?s 0) (world ?s)) = Inl ?err"
    by (simp add: test_defs shouldProcess_def)
  have a0: "drainLoop throwingCallback testRuntime (0 # []) 0 ?s =
        (0 # [], 0, ?s\<lparr>world := snd (throwingCallback (heap ?s 0) (world ?s)),
                           calls := calls ?s @ [(0, False)]\<rparr>)"
    using t hyp0 by blast
  have b: "buffers (snd (addEvent throwingCallback testRuntime 0 ?s)) =
        (buffers ?s)(entityId (heap ?s 0) \<mapsto>
           (bufferOf ?s (entityId (heap ?s 0)))\<lparr>pendingEvents := 0 # []\<rparr>)"
    and c: "heap (snd (addEvent throwingCallback testRuntime 0 ?s)) = heap ?s"
    and d: "calls (snd (addEvent throwingCallback testRuntime 0 ?s)) = calls ?s @ [(0, False)]"
    using t hyp by blast+
  show ?thesis
    using a a0 b c d by (simp add: test_defs bufferOf_def)
qed

section \<open>Manual clear\<close>





section \<open>Sequence numbers\<close>

lemma getNextSequenceNumber_result:
  "fst (getNextSequenceNumber rt i t s) = Inr (getCurrentSequence i t s + 1)"
  by (simp add: getNextSequenceNumber_def getCurrentSequence_def Let_def split: option.splits)

lemma getNextSequenceNumber_current:
  "getCurrentSequence i' t' (snd (getNextSequenceNumber rt i t s)) =
     (if (i', t') = (i, t) then getCurrentSequence i t s + 1 else getCurrentSequence i' t' s)"
  by (auto simp: getNextSequenceNumber_def getCurrentSequence_def Let_def split: option.splits)

lemma getNextSequenceNumber_frame:
  "k \<noteq> (i, t) \<Longrightarrow> sequences (snd (getNextSequenceNumber rt i t s)) k = sequences s k"
  "buffers (snd (getNextSequenceNumber rt i t s)) = buffers s"
  "heap (snd (getNextSequenceNumber rt i t s)) = heap s"
  "world (snd (getNextSequenceNumber rt i t s)) = world s"
  "calls (snd (getNextSequenceNumber rt i t s)) = calls s"
  "nextRef (snd (getNextSequenceNumber rt i t s)) = nextRef s"
  by (simp_all add: getNextSequenceNumber_def Let_def split: option.splits)

lemma getCurrentSequence_world [simp]:
  "getCurrentSequence i t (s\<lparr>world := w\<rparr>) = getCurrentSequence i t s"
  by (simp add: getCurrentSequence_def)

lemma allocateAll_values:
  "map snd (filter (\<lambda>p. fst p = (i, t)) (fst (allocateAll rt reqs s))) =
     map (\<lambda>n. Inr (getCurrentSequence i t s + 1 + int n))
       [0..<length (filter (\<lambda>q. fst q = (i, t)) reqs)] \<and>
   getCurrentSequence i t (snd (allocateAll rt reqs s)) =
     getCurrentSequence i t s + int (length (filter (\<lambda>q. fst q = (i, t)) reqs))"
proof (induction reqs arbitrary: s)
  case Nil
  then show ?case by simp
next
  case (Cons q reqs)
  obtain i' t' w where q: "q = ((i', t'), w)" by (metis prod.collapse)
  let ?s1 = "snd (getNextSequenceNumber rt i' t' (s\<lparr>world := w\<rparr>))"
  have r: "fst (getNextSequenceNumber rt i' t' (s\<lparr>world := w\<rparr>)) = Inr (getCurrentSequence i' t' s + 1)"
    using getNextSequenceNumber_result[of rt i' t' "s\<lparr>world := w\<rparr>"] by simp
  have c: "getCurrentSequence i t ?s1 =
             (if (i, t) = (i', t') then getCurrentSequence i' t' s + 1 else getCurrentSequence i t s)"
    using getNextSequenceNumber_current[of i t rt i' t' "s\<lparr>world := w\<rparr>"] by simp
  have u: "allocateAll rt (((i', t'), w) # reqs) s =
             (((i', t'), fst (getNextSequenceNumber rt i' t' (s\<lparr>world := w\<rparr>)))
                # fst (allocateAll rt reqs ?s1), snd (allocateAll rt reqs ?s1))"
    by (simp split: prod.splits)
  show ?case
  proof (cases "(i', t') = (i, t)")
    case True
    have up: "[0..<Suc n] = 0 # map Suc [0..<n]" for n
      by (simp add: upt_conv_Cons map_Suc_upt del: upt_Suc)
    show ?thesis
      using True Cons.IH[of ?s1] r c u
      by (simp add: q up comp_def add.assoc del: upt_Suc allocateAll.simps)
  next
    case False
    then show ?thesis
      using Cons.IH[of ?s1] c u by (auto simp: q simp del: allocateAll.simps)
  qed
qed

text \<open>
  C4. \<^verbatim>\<open>getNextSequenceNumber\<close>: without a row for the pair it creates the row with the
  value 1 and returns 1; with a row of value \<open>k\<close> it sets the row to \<open>k + 1\<close> and returns
  \<open>k + 1\<close>. So in any run of allocations (for this pair and for others, in any
  interleaving of the calls), the values returned for the pair are, in order, one more,
  two more, ... than the value the pair had before the run (0 without a row: 1, 2,
  3, ...), and afterwards the pair's value is the old one plus the number of its
  allocations: it never decreases. The column is a 32-bit integer in the table; the
  model's integers are exact as long as the values fit.
\<close>

theorem C4_next_sequence_number:
  "(sequences s (i, t) = None \<longrightarrow>
      fst (getNextSequenceNumber rt i t s) = Inr 1 \<and>
      sequences (snd (getNextSequenceNumber rt i t s)) =
        (sequences s)((i, t) \<mapsto> \<lparr>lastSequenceNumber = 1, updatedAt = dateNow rt (world s)\<rparr>))
   \<and>
   (\<forall>row. sequences s (i, t) = Some row \<longrightarrow>
      fst (getNextSequenceNumber rt i t s) = Inr (lastSequenceNumber row + 1) \<and>
      sequences (snd (getNextSequenceNumber rt i t s)) =
        (sequences s)((i, t) \<mapsto> \<lparr>lastSequenceNumber = lastSequenceNumber row + 1,
                                    updatedAt = dateNow rt (world s)\<rparr>))
   \<and>
   map snd (filter (\<lambda>p. fst p = (i, t)) (fst (allocateAll rt reqs s))) =
     map (\<lambda>n. Inr (getCurrentSequence i t s + 1 + int n))
       [0..<length (filter (\<lambda>q. fst q = (i, t)) reqs)]
   \<and>
   getCurrentSequence i t (snd (allocateAll rt reqs s)) =
     getCurrentSequence i t s + int (length (filter (\<lambda>q. fst q = (i, t)) reqs))"
proof (intro conjI impI allI)
  assume "sequences s (i, t) = None"
  then show "fst (getNextSequenceNumber rt i t s) = Inr 1"
    "sequences (snd (getNextSequenceNumber rt i t s)) =
        (sequences s)((i, t) \<mapsto> \<lparr>lastSequenceNumber = 1, updatedAt = dateNow rt (world s)\<rparr>)"
    by (simp_all add: getNextSequenceNumber_def)
next
  fix row
  assume "sequences s (i, t) = Some row"
  then show "fst (getNextSequenceNumber rt i t s) = Inr (lastSequenceNumber row + 1)"
    "sequences (snd (getNextSequenceNumber rt i t s)) =
        (sequences s)((i, t) \<mapsto> \<lparr>lastSequenceNumber = lastSequenceNumber row + 1,
                                    updatedAt = dateNow rt (world s)\<rparr>)"
    by (cases row; simp add: getNextSequenceNumber_def Let_def)+
next
  show "map snd (filter (\<lambda>p. fst p = (i, t)) (fst (allocateAll rt reqs s))) =
     map (\<lambda>n. Inr (getCurrentSequence i t s + 1 + int n))
       [0..<length (filter (\<lambda>q. fst q = (i, t)) reqs)]"
    "getCurrentSequence i t (snd (allocateAll rt reqs s)) =
     getCurrentSequence i t s + int (length (filter (\<lambda>q. fst q = (i, t)) reqs))"
    using allocateAll_values[of i t rt reqs s] by simp_all
qed

theorem C4_next_sequence_number_witness:
  "map snd (fst (allocateAll testRuntime
        [((''X'', ''order''), ()), ((''X'', ''inventory''), ()), ((''X'', ''order''), ()),
         ((''X'', ''order''), ())] (freshState [])))
     = [Inr 1, Inr 1, Inr 2, Inr 3] \<and>
   getCurrentSequence ''X'' ''order'' (snd (allocateAll testRuntime
        [((''X'', ''order''), ()), ((''X'', ''inventory''), ()), ((''X'', ''order''), ()),
         ((''X'', ''order''), ())] (freshState []))) = 3"
proof -
  let ?s = "freshState []"
  let ?s1 = "snd (getNextSequenceNumber testRuntime ''X'' ''order'' ?s)"
  have n: "sequences ?s (''X'', ''order'') = None" by (simp add: freshState_def)
  note t = C4_next_sequence_number[of ?s "''X''" "''order''" testRuntime
      "[((''X'', ''order''), ()), ((''X'', ''inventory''), ()), ((''X'', ''order''), ()),
         ((''X'', ''order''), ())]"]
  have a: "fst (getNextSequenceNumber testRuntime ''X'' ''order'' ?s) = Inr 1"
    using t n by blast
  have row: "sequences ?s1 (''X'', ''order'') = Some \<lparr>lastSequenceNumber = 1, updatedAt = 0\<rparr>"
    by (simp add: getNextSequenceNumber_def freshState_def testRuntime_def)
  have b: "fst (getNextSequenceNumber testRuntime ''X'' ''order'' ?s1) = Inr 2"
    using C4_next_sequence_number[of ?s1 "''X''" "''order''" testRuntime "[]"] row by auto
  have c: "getCurrentSequence ''X'' ''order'' (snd (allocateAll testRuntime
        [((''X'', ''order''), ()), ((''X'', ''inventory''), ()), ((''X'', ''order''), ()),
         ((''X'', ''order''), ())] ?s)) = getCurrentSequence ''X'' ''order'' ?s + 3"
    using t by simp
  show ?thesis
    using a b c
    by (simp add: getNextSequenceNumber_def getCurrentSequence_def freshState_def testRuntime_def)
qed

text \<open>
  C8. The claim asks that an empty \<^verbatim>\<open>entityId\<close> or \<^verbatim>\<open>entityType\<close> be refused before any
  row is touched, and the test of the sequence service expects the call to reject. The
  code has no such check: on an empty table, \<open>getNextSequenceNumber('', 'order')\<close> and
  \<open>getNextSequenceNumber('test-id', '')\<close> each create a row with the value 1 and return 1.
\<close>

theorem C8_empty_identifiers_accepted:
  "fst (getNextSequenceNumber testRuntime [] ''order'' (freshState [])) = Inr 1 \<and>
   sequences (snd (getNextSequenceNumber testRuntime [] ''order'' (freshState []))) ([], ''order'')
     = Some \<lparr>lastSequenceNumber = 1, updatedAt = 0\<rparr> \<and>
   fst (getNextSequenceNumber testRuntime ''test-id'' [] (freshState [])) = Inr 1 \<and>
   sequences (snd (getNextSequenceNumber testRuntime ''test-id'' [] (freshState [])))
       (''test-id'', [])
     = Some \<lparr>lastSequenceNumber = 1, updatedAt = 0\<rparr>"
  by (simp add: getNextSequenceNumber_def freshState_def testRuntime_def)

section \<open>Retries\<close>

lemma numberToString_3: "numberToString 3 = ''3''"
  by code_simp

lemma numberToString_4: "numberToString 4 = ''4''"
  by code_simp

lemma retryLoop_exhausted:
  assumes fl: "\<forall>w. fst (operation w) = Inl err"
    and rt_ok: "isRetryableError err (cfgRetryableErrors config)"
  shows "n = nat (cfgMaxRetries config - attempt) \<Longrightarrow> attempt \<le> cfgMaxRetries config \<Longrightarrow>
     fst (retryLoop rt operation config context attempt lastError s) =
       Inl (Thrown (Error ''Error''
              (''Operation failed after '' @ numberToString (cfgMaxRetries config + 1)
                 @ '' attempts: '' @ context @ ''. Last error: '' @ message err) None)) \<and>
     invocations (snd (retryLoop rt operation config context attempt lastError s)) =
       invocations s + nat (cfgMaxRetries config + 1 - attempt)"
proof (induction n arbitrary: attempt lastError s)
  case 0
  then have eq: "attempt = cfgMaxRetries config" by simp
  obtain w' where opw: "operation (world s) = (Inl err, w')"
    using fl by (metis prod.collapse)
  show ?case
    using eq opw rt_ok
    by (simp add: retryLoop.simps[of rt operation config "context" "cfgMaxRetries config"] Let_def)
next
  case (Suc n)
  then have lt: "attempt < cfgMaxRetries config" by simp
  obtain w' where opw: "operation (world s) = (Inl err, w')"
    using fl by (metis prod.collapse)
  obtain delay w'' where dl: "calculateDelay rt attempt config w' = (delay, w'')"
    by (metis prod.collapse)
  let ?s' = "s\<lparr>invocations := invocations s + 1, world := sleep rt delay w''\<rparr>"
  have step: "retryLoop rt operation config context attempt lastError s =
              retryLoop rt operation config context (attempt + 1) (Thrown err) ?s'"
    using lt opw rt_ok dl
    by (simp add: retryLoop.simps[of rt operation config "context" attempt] Let_def)
  have "n = nat (cfgMaxRetries config - (attempt + 1))" using Suc.prems by simp
  from Suc.IH[OF this, of "Thrown err" ?s'] lt
  show ?case by (simp add: step nat_add_distrib nat_diff_distrib')
qed

lemma retryLoop_simple_exhausted:
  assumes fl: "\<forall>w. fst (operation w) = Inl err"
    and rt_ok: "isRetryableError_simple err sigs"
  shows "n = nat (m - attempt) \<Longrightarrow> attempt \<le> m \<Longrightarrow>
     fst (retryLoop_simple rt operation m b d sigs attempt lastError s) = Inl (Thrown err) \<and>
     invocations (snd (retryLoop_simple rt operation m b d sigs attempt lastError s)) =
       invocations s + nat (m + 1 - attempt)"
proof (induction n arbitrary: attempt lastError s)
  case 0
  then have eq: "attempt = m" by simp
  obtain w' where opw: "operation (world s) = (Inl err, w')"
    using fl by (metis prod.collapse)
  show ?case
    using eq opw rt_ok
    by (simp add: retryLoop_simple.simps[of rt operation m b d sigs m] Let_def)
next
  case (Suc n)
  then have lt: "attempt < m" by simp
  obtain w' where opw: "operation (world s) = (Inl err, w')"
    using fl by (metis prod.collapse)
  obtain delay w'' where dl: "calculateExponentialBackoff rt attempt b d w' = (delay, w'')"
    by (metis prod.collapse)
  let ?s' = "s\<lparr>invocations := invocations s + 1, world := sleep rt delay w''\<rparr>"
  have step: "retryLoop_simple rt operation m b d sigs attempt lastError s =
              retryLoop_simple rt operation m b d sigs (attempt + 1) (Thrown err) ?s'"
    using lt opw rt_ok dl
    by (simp add: retryLoop_simple.simps[of rt operation m b d sigs attempt] Let_def)
  have "n = nat (m - (attempt + 1))" using Suc.prems by simp
  from Suc.IH[OF this, of "Thrown err" ?s'] lt
  show ?case by (simp add: step nat_add_distrib nat_diff_distrib')
qed

lemma mergeOptions_maxRetries:
  "maxRetries options = Some m \<Longrightarrow> cfgMaxRetries (mergeOptions defaults options) = m"
  by (simp add: mergeOptions_def Let_def spread_def)

lemma retryLoop_step:
  assumes opw: "fst (operation (world s)) = Inl e"
    and rt_ok: "isRetryableError e (cfgRetryableErrors config)"
    and lt: "attempt < cfgMaxRetries config"
  shows "retryLoop rt operation config context attempt lastError s =
         retryLoop rt operation config context (attempt + 1) (Thrown e)
           (s\<lparr>invocations := invocations s + 1,
              world := nextAttemptWorld rt operation config attempt (world s)\<rparr>)"
proof -
  obtain w' where o: "operation (world s) = (Inl e, w')"
    using opw by (metis prod.collapse)
  obtain delay w'' where dl: "calculateDelay rt attempt config w' = (delay, w'')"
    by (metis prod.collapse)
  show ?thesis
    using lt o rt_ok dl
    by (simp add: retryLoop.simps[of rt operation config "context" attempt] Let_def
        nextAttemptWorld_def)
qed

lemma retryLoop_last:
  assumes opw: "fst (operation (world s)) = Inl e"
    and rt_ok: "isRetryableError e (cfgRetryableErrors config)"
    and eq: "attempt = cfgMaxRetries config"
  shows "fst (retryLoop rt operation config context attempt lastError s) =
           Inl (Thrown (Error ''Error''
              (''Operation failed after '' @ numberToString (cfgMaxRetries config + 1)
                 @ '' attempts: '' @ context @ ''. Last error: '' @ message e) None)) \<and>
         invocations (snd (retryLoop rt operation config context attempt lastError s)) =
           invocations s + 1"
proof -
  obtain w' where o: "operation (world s) = (Inl e, w')"
    using opw by (metis prod.collapse)
  show ?thesis
    using eq o rt_ok
    by (simp add: retryLoop.simps[of rt operation config "context" "cfgMaxRetries config"] Let_def)
qed

lemma retryLoop_simple_step:
  assumes opw: "fst (operation (world s)) = Inl e"
    and rt_ok: "isRetryableError_simple e sigs"
    and lt: "attempt < m"
  shows "retryLoop_simple rt operation m b d sigs attempt lastError s =
         retryLoop_simple rt operation m b d sigs (attempt + 1) (Thrown e)
           (s\<lparr>invocations := invocations s + 1,
              world := nextAttemptWorld_simple rt operation b d attempt (world s)\<rparr>)"
proof -
  obtain w' where o: "operation (world s) = (Inl e, w')"
    using opw by (metis prod.collapse)
  obtain delay w'' where dl: "calculateExponentialBackoff rt attempt b d w' = (delay, w'')"
    by (metis prod.collapse)
  show ?thesis
    using lt o rt_ok dl
    by (simp add: retryLoop_simple.simps[of rt operation m b d sigs attempt] Let_def
        nextAttemptWorld_simple_def)
qed

lemma retryLoop_simple_last:
  assumes opw: "fst (operation (world s)) = Inl e"
    and rt_ok: "isRetryableError_simple e sigs"
  shows "fst (retryLoop_simple rt operation m b d sigs m lastError s) = Inl (Thrown e) \<and>
         invocations (snd (retryLoop_simple rt operation m b d sigs m lastError s)) =
           invocations s + 1"
proof -
  obtain w' where o: "operation (world s) = (Inl e, w')"
    using opw by (metis prod.collapse)
  show ?thesis
    using o rt_ok
    by (simp add: retryLoop_simple.simps[of rt operation m b d sigs m] Let_def)
qed

text \<open>
  C5, as stated, fails for the second retry service: with \<open>maxRetries = 2\<close> and an
  operation that fails every time with a connection error (retryable), the operation is
  invoked 3 times and the error thrown to the caller is that very error, not a wrapper.
\<close>

theorem C5_retry_exhaustion_counterexample:
  "fst (executeWithRetry_simple testRuntime alwaysFails
          (noOptions_simple\<lparr>maxRetries_simple := Some 2\<rparr>) (freshState []))
     = Inl (Thrown connectionRefused) \<and>
   invocations (snd (executeWithRetry_simple testRuntime alwaysFails
          (noOptions_simple\<lparr>maxRetries_simple := Some 2\<rparr>) (freshState []))) = 3"
proof -
  have f: "\<forall>w. fst (alwaysFails w) = Inl connectionRefused" by (simp add: alwaysFails_def)
  have r: "isRetryableError_simple connectionRefused
             [''ECONNREFUSED'', ''TIMEOUT'', ''DATABASE_ERROR'', ''SERVICE_UNAVAILABLE'']"
    by (simp add: isRetryableError_simple_def connectionRefused_def sublist_code)
  show ?thesis
    using retryLoop_simple_exhausted[OF f r, of 2 2 0 testRuntime 1000 30000 ThrownUndefined
        "freshState []"]
    by (simp add: executeWithRetry_simple_def noOptions_simple_def freshState_def)
qed

text \<open>
  C5, amended. With \<open>maxRetries = 2\<close> and an operation that fails on every call with a
  retryable error, not necessarily the same one from call to call, both retry services
  invoke the operation exactly 3 times. The error reported is the one of the third call,
  that is, of the call made in the world that the first two calls, their delays and
  their sleeps have left. The retry service of the order service then throws a new error
  whose message names the 3 attempts, the context and the message of that last error
  (\<open>Operation failed after 3 attempts: <context>. Last error: <message>\<close>); the second
  retry service throws that last error itself.
\<close>

theorem C5_retry_exhaustion:
  "((\<forall>w. \<exists>e. fst (operation w) = Inl e \<and>
            isRetryableError e (cfgRetryableErrors (mergeOptions defaults options))) \<and>
    maxRetries options = Some 2 \<and>
    fst (operation
           (nextAttemptWorld rt operation (mergeOptions defaults options) 1
              (nextAttemptWorld rt operation (mergeOptions defaults options) 0 (world s))))
      = Inl err3 \<longrightarrow>
      fst (executeWithRetry rt defaults operation options context s) =
        Inl (Thrown (Error ''Error''
               (''Operation failed after 3 attempts: '' @ context
                  @ ''. Last error: '' @ message err3) None)) \<and>
      invocations (snd (executeWithRetry rt defaults operation options context s)) =
        invocations s + 3)
   \<and>
   ((\<forall>w. \<exists>e. fst (operation w) = Inl e \<and>
            isRetryableError_simple e
              (case retryableErrors_simple options' of
                 Some v \<Rightarrow> v
               | None \<Rightarrow> [''ECONNREFUSED'', ''TIMEOUT'', ''DATABASE_ERROR'',
                           ''SERVICE_UNAVAILABLE''])) \<and>
    maxRetries_simple options' = Some 2 \<and>
    fst (operation
           (nextAttemptWorld_simple rt operation
              (case baseDelay_simple options' of Some v \<Rightarrow> v | None \<Rightarrow> 1000)
              (case maxDelay_simple options' of Some v \<Rightarrow> v | None \<Rightarrow> 30000) 1
              (nextAttemptWorld_simple rt operation
                 (case baseDelay_simple options' of Some v \<Rightarrow> v | None \<Rightarrow> 1000)
                 (case maxDelay_simple options' of Some v \<Rightarrow> v | None \<Rightarrow> 30000) 0
                 (world s))))
      = Inl err3 \<longrightarrow>
      fst (executeWithRetry_simple rt operation options' s) = Inl (Thrown err3) \<and>
      invocations (snd (executeWithRetry_simple rt operation options' s)) = invocations s + 3)"
proof (intro conjI impI)
  let ?c = "mergeOptions defaults options"
  assume a: "(\<forall>w. \<exists>e. fst (operation w) = Inl e \<and>
            isRetryableError e (cfgRetryableErrors ?c)) \<and>
    maxRetries options = Some 2 \<and>
    fst (operation (nextAttemptWorld rt operation ?c 1
              (nextAttemptWorld rt operation ?c 0 (world s)))) = Inl err3"
  then have m: "cfgMaxRetries ?c = 2"
    by (simp add: mergeOptions_maxRetries)
  from a have f: "\<And>w. \<exists>e. fst (operation w) = Inl e \<and>
            isRetryableError e (cfgRetryableErrors ?c)"
    by blast
  let ?w1 = "nextAttemptWorld rt operation ?c 0 (world s)"
  let ?w2 = "nextAttemptWorld rt operation ?c 1 ?w1"
  from f[of "world s"] obtain e1 where e1: "fst (operation (world s)) = Inl e1"
    "isRetryableError e1 (cfgRetryableErrors ?c)" by blast
  from f[of ?w1] obtain e2 where e2: "fst (operation ?w1) = Inl e2"
    "isRetryableError e2 (cfgRetryableErrors ?c)" by blast
  from a have e3: "fst (operation ?w2) = Inl err3" by blast
  with f[of ?w2] have r3: "isRetryableError err3 (cfgRetryableErrors ?c)" by auto
  let ?s1 = "s\<lparr>invocations := invocations s + 1, world := ?w1\<rparr>"
  let ?s2 = "?s1\<lparr>invocations := invocations ?s1 + 1, world := ?w2\<rparr>"
  have s1: "retryLoop rt operation ?c context 0 ThrownUndefined s =
            retryLoop rt operation ?c context 1 (Thrown e1) ?s1"
    using retryLoop_step[where operation = operation and s = s and e = e1 and config = "?c" and attempt = 0 and rt = rt and lastError = ThrownUndefined, OF e1] m by simp
  have w1: "fst (operation (world ?s1)) = Inl e2" using e2(1) by simp
  have s2: "retryLoop rt operation ?c context 1 (Thrown e1) ?s1 =
            retryLoop rt operation ?c context 2 (Thrown e2) ?s2"
    using retryLoop_step[where operation = operation and s = "?s1" and e = e2 and config = "?c" and attempt = 1 and rt = rt and lastError = "Thrown e1", OF w1 e2(2)] m by simp
  have w2: "fst (operation (world ?s2)) = Inl err3" using e3 by simp
  note l = retryLoop_last[where operation = operation and s = "?s2" and e = err3 and config = "?c" and attempt = 2 and rt = rt and lastError = "Thrown e2", OF w2 r3]
  have run: "executeWithRetry rt defaults operation options context s =
             retryLoop rt operation ?c context 2 (Thrown e2) ?s2"
    unfolding executeWithRetry_def by (simp only: s1 s2)
  show "fst (executeWithRetry rt defaults operation options context s) =
        Inl (Thrown (Error ''Error''
               (''Operation failed after 3 attempts: '' @ context
                  @ ''. Last error: '' @ message err3) None))"
    unfolding run using l m by (simp add: numberToString_3)
  show "invocations (snd (executeWithRetry rt defaults operation options context s)) =
        invocations s + 3"
    unfolding run using l m by simp
next
  let ?sg = "case retryableErrors_simple options' of
                 Some v \<Rightarrow> v
               | None \<Rightarrow> [''ECONNREFUSED'', ''TIMEOUT'', ''DATABASE_ERROR'',
                           ''SERVICE_UNAVAILABLE'']"
  let ?b = "case baseDelay_simple options' of Some v \<Rightarrow> v | None \<Rightarrow> 1000"
  let ?d = "case maxDelay_simple options' of Some v \<Rightarrow> v | None \<Rightarrow> 30000"
  let ?w1 = "nextAttemptWorld_simple rt operation ?b ?d 0 (world s)"
  let ?w2 = "nextAttemptWorld_simple rt operation ?b ?d 1 ?w1"
  assume a: "(\<forall>w. \<exists>e. fst (operation w) = Inl e \<and> isRetryableError_simple e ?sg) \<and>
    maxRetries_simple options' = Some 2 \<and>
    fst (operation ?w2) = Inl err3"
  then have m: "maxRetries_simple options' = Some 2" by blast
  from a have f: "\<And>w. \<exists>e. fst (operation w) = Inl e \<and> isRetryableError_simple e ?sg"
    by blast
  from f[of "world s"] obtain e1 where e1: "fst (operation (world s)) = Inl e1"
    "isRetryableError_simple e1 ?sg" by blast
  from f[of ?w1] obtain e2 where e2: "fst (operation ?w1) = Inl e2"
    "isRetryableError_simple e2 ?sg" by blast
  from a have e3: "fst (operation ?w2) = Inl err3" by blast
  with f[of ?w2] have r3: "isRetryableError_simple err3 ?sg" by auto
  let ?s1 = "s\<lparr>invocations := invocations s + 1, world := ?w1\<rparr>"
  let ?s2 = "?s1\<lparr>invocations := invocations ?s1 + 1, world := ?w2\<rparr>"
  have s1: "retryLoop_simple rt operation 2 ?b ?d ?sg 0 ThrownUndefined s =
            retryLoop_simple rt operation 2 ?b ?d ?sg 1 (Thrown e1) ?s1"
    using retryLoop_simple_step[where operation = operation and s = s and e = e1 and sigs = "?sg" and attempt = 0 and m = 2 and rt = rt and b = "?b" and d = "?d" and lastError = ThrownUndefined, OF e1] by simp
  have w1: "fst (operation (world ?s1)) = Inl e2" using e2(1) by simp
  have s2: "retryLoop_simple rt operation 2 ?b ?d ?sg 1 (Thrown e1) ?s1 =
            retryLoop_simple rt operation 2 ?b ?d ?sg 2 (Thrown e2) ?s2"
    using retryLoop_simple_step[where operation = operation and s = "?s1" and e = e2 and sigs = "?sg" and attempt = 1 and m = 2 and rt = rt and b = "?b" and d = "?d" and lastError = "Thrown e1", OF w1 e2(2)] by simp
  have w2: "fst (operation (world ?s2)) = Inl err3" using e3 by simp
  note l = retryLoop_simple_last[where operation = operation and s = "?s2" and e = err3 and sigs = "?sg" and m = 2 and rt = rt and b = "?b" and d = "?d" and lastError = "Thrown e2", OF w2 r3]
  have run: "executeWithRetry_simple rt operation options' s =
             retryLoop_simple rt operation 2 ?b ?d ?sg 2 (Thrown e2) ?s2"
    unfolding executeWithRetry_simple_def m by (simp only: s1 s2 option.case)
  show "fst (executeWithRetry_simple rt operation options' s) = Inl (Thrown err3)"
    unfolding run using l by simp
  show "invocations (snd (executeWithRetry_simple rt operation options' s)) = invocations s + 3"
    unfolding run using l by simp
qed

theorem C5_retry_exhaustion_witness:
  "fst (executeWithRetry stillRuntime defaultRetryOptions failsDifferently
          (noOptions\<lparr>maxRetries := Some 2\<rparr>) ''test-operation'' (startState 0 []))
     = Inl (Thrown (Error ''Error''
         ''Operation failed after 3 attempts: test-operation. Last error: ECONNREFUSED on the third call''
         None)) \<and>
   invocations (snd (executeWithRetry stillRuntime defaultRetryOptions failsDifferently
          (noOptions\<lparr>maxRetries := Some 2\<rparr>) ''test-operation'' (startState 0 []))) = 3 \<and>
   fst (executeWithRetry_simple stillRuntime failsDifferently
          (noOptions_simple\<lparr>maxRetries_simple := Some 2\<rparr>) (startState 0 []))
     = Inl (Thrown (Error ''Error'' ''ECONNREFUSED on the third call'' None)) \<and>
   invocations (snd (executeWithRetry_simple stillRuntime failsDifferently
          (noOptions_simple\<lparr>maxRetries_simple := Some 2\<rparr>) (startState 0 []))) = 3"
proof -
  let ?o = "noOptions\<lparr>maxRetries := Some 2\<rparr>"
  let ?o' = "noOptions_simple\<lparr>maxRetries_simple := Some 2\<rparr>"
  let ?e3 = "Error ''Error'' ''ECONNREFUSED on the third call'' None"
  have sg: "cfgRetryableErrors (mergeOptions defaultRetryOptions ?o) =
            cfgRetryableErrors defaultRetryOptions"
    by (simp add: mergeOptions_def noOptions_def spread_def)
  have f: "\<forall>w. \<exists>e. fst (failsDifferently w) = Inl e \<and>
             isRetryableError e (cfgRetryableErrors (mergeOptions defaultRetryOptions ?o))"
    unfolding sg
    by (simp add: failsDifferently_def isRetryableError_def defaultRetryOptions_def
        toString_def sublist_code)
  have m: "maxRetries ?o = Some 2" by simp
  have t3: "fst (failsDifferently
           (nextAttemptWorld stillRuntime failsDifferently (mergeOptions defaultRetryOptions ?o) 1
              (nextAttemptWorld stillRuntime failsDifferently
                 (mergeOptions defaultRetryOptions ?o) 0 (world (startState (0::nat) [])))))
      = Inl ?e3"
    by (simp add: nextAttemptWorld_def calculateDelay_def stillRuntime_def failsDifferently_def
        startState_def Let_def split: prod.splits)
  have f': "\<forall>w. \<exists>e. fst (failsDifferently w) = Inl e \<and>
             isRetryableError_simple e
              (case retryableErrors_simple ?o' of
                 Some v \<Rightarrow> v
               | None \<Rightarrow> [''ECONNREFUSED'', ''TIMEOUT'', ''DATABASE_ERROR'',
                           ''SERVICE_UNAVAILABLE''])"
    by (simp add: failsDifferently_def isRetryableError_simple_def noOptions_simple_def
        sublist_code)
  have m': "maxRetries_simple ?o' = Some 2" by simp
  have t3': "fst (failsDifferently
           (nextAttemptWorld_simple stillRuntime failsDifferently
              (case baseDelay_simple ?o' of Some v \<Rightarrow> v | None \<Rightarrow> 1000)
              (case maxDelay_simple ?o' of Some v \<Rightarrow> v | None \<Rightarrow> 30000) 1
              (nextAttemptWorld_simple stillRuntime failsDifferently
                 (case baseDelay_simple ?o' of Some v \<Rightarrow> v | None \<Rightarrow> 1000)
                 (case maxDelay_simple ?o' of Some v \<Rightarrow> v | None \<Rightarrow> 30000) 0
                 (world (startState (0::nat) [])))))
      = Inl ?e3"
    by (simp add: nextAttemptWorld_simple_def calculateExponentialBackoff_def stillRuntime_def
        failsDifferently_def startState_def Let_def)
  note t = C5_retry_exhaustion[of failsDifferently defaultRetryOptions ?o stillRuntime
      "startState (0::nat) []" ?e3 "''test-operation''" ?o']
  have a: "fst (executeWithRetry stillRuntime defaultRetryOptions failsDifferently
          ?o ''test-operation'' (startState 0 [])) =
        Inl (Thrown (Error ''Error''
               (''Operation failed after 3 attempts: '' @ ''test-operation''
                  @ ''. Last error: '' @ message ?e3) None))"
    and b: "invocations (snd (executeWithRetry stillRuntime defaultRetryOptions failsDifferently
          ?o ''test-operation'' (startState 0 []))) =
        invocations (startState (0::nat) []) + 3"
    using t f m t3 by blast+
  have c: "fst (executeWithRetry_simple stillRuntime failsDifferently ?o' (startState 0 []))
             = Inl (Thrown ?e3)"
    and d: "invocations (snd (executeWithRetry_simple stillRuntime failsDifferently ?o'
              (startState 0 []))) = invocations (startState (0::nat) []) + 3"
    using t f' m' t3' by blast+
  show ?thesis
    using a b c d by (simp add: startState_def)
qed

section \<open>Publishing\<close>

lemma sameStores_refl [simp]: "sameStores s s"
  by (simp add: sameStores_def)

lemma sameStores_trans: "sameStores s s' \<Longrightarrow> sameStores s' s'' \<Longrightarrow> sameStores s s''"
  by (simp add: sameStores_def)

lemma retryLoop_frame:
  "n = nat (cfgMaxRetries config + 1 - attempt) \<Longrightarrow>
     sameStores s (snd (retryLoop rt operation config ctx attempt lastError s))"
proof (induction n arbitrary: attempt lastError s)
  case 0
  then show ?case
    by (simp add: retryLoop.simps[of rt operation config ctx attempt])
next
  case (Suc n)
  then have le: "attempt \<le> cfgMaxRetries config" by simp
  obtain res w' where opw: "operation (world s) = (res, w')" by (metis prod.collapse)
  show ?case
  proof (cases res)
    case (Inr r)
    then show ?thesis using le opw
      by (simp add: retryLoop.simps[of rt operation config ctx attempt] sameStores_def)
  next
    case (Inl err)
    obtain delay w'' where dl: "calculateDelay rt attempt config w' = (delay, w'')"
      by (metis prod.collapse)
    let ?s' = "s\<lparr>invocations := invocations s + 1, world := sleep rt delay w''\<rparr>"
    have n: "n = nat (cfgMaxRetries config + 1 - (attempt + 1))" using Suc.prems by simp
    have ih: "sameStores ?s' (snd (retryLoop rt operation config ctx (attempt + 1) (Thrown err) ?s'))"
      by (rule Suc.IH[OF n])
    have st: "sameStores s ?s'" by (simp add: sameStores_def)
    show ?thesis
      using le opw Inl dl sameStores_trans[OF st ih]
      by (simp add: retryLoop.simps[of rt operation config ctx attempt] Let_def sameStores_def)
  qed
qed

lemma executeWithRetry_frame:
  "sameStores s (snd (executeWithRetry rt defaults operation options ctx s))"
  unfolding executeWithRetry_def by (rule retryLoop_frame) simp

lemma publishToInventory_frame:
  "sameStores s (snd (publishToInventory rt defaults cl event routingKey s))"
  using executeWithRetry_frame[of s rt defaults "inventoryOperation rt cl event routingKey"
      "noOptions\<lparr>operationType := Some Rabbitmq\<rparr>" "''publish-inventory-event-'' @ id_ev event"]
  by (auto simp: publishToInventory_def split: prod.splits sum.splits thrown.splits)

lemma publishToNotification_frame:
  "sameStores s (snd (publishToNotification rt defaults cl notification routingKey s))"
proof -
  obtain nid w1 where u: "uuidv4 rt (world s) = (nid, w1)" by (metis prod.collapse)
  have a: "sameStores s (s\<lparr>world := w1\<rparr>)" by (simp add: sameStores_def)
  have b: "sameStores (s\<lparr>world := w1\<rparr>)
             (snd (executeWithRetry rt defaults (notificationOperation rt cl notification routingKey)
                (noOptions\<lparr>operationType := Some Rabbitmq\<rparr>)
                (''publish-notification-event-'' @ nid) (s\<lparr>world := w1\<rparr>)))"
    by (rule executeWithRetry_frame)
  show ?thesis
    using sameStores_trans[OF a b] u
    by (auto simp: publishToNotification_def split: prod.splits sum.splits thrown.splits)
qed

lemma tryProcess_sequences:
  "sequences (snd (tryProcess cb rt r s)) = sequences s"
  "nextRef (snd (tryProcess cb rt r s)) = nextRef s"
  by (cases rule: tryProcess_cases[of cb s r rt]; auto)+

lemma drainLoop_sequences:
  "drainLoop cb rt ps lps s = (ps', lps', s') \<Longrightarrow>
     sequences s' = sequences s \<and> nextRef s' = nextRef s"
proof (induction ps arbitrary: lps s)
  case Nil
  then show ?case by simp
next
  case (Cons r rs)
  show ?case
    using Cons.prems Cons.IH[of lps s]
      Cons.IH[of "sequenceNumber (heap s r)" "snd (tryProcess cb rt r s)"]
    by (auto simp del: drainLoop.simps(2) simp: drainLoop_Cons tryProcess_sequences
        split: if_splits)
qed

lemma addEvent_sequences:
  fixes s :: "'w state"
  shows "sequences (snd (addEvent cb rt r s)) = sequences s"
    and "nextRef (snd (addEvent cb rt r s)) = nextRef s"
proof -
  let ?e = "entityId (heap s r)"
  let ?b0 = "bufferOf s ?e"
  let ?sorted = "sort_key (\<lambda>x. sequenceNumber (heap s x)) (pendingEvents ?b0 @ [r])"
  let ?s1 = "s\<lparr>buffers := (buffers s)(?e \<mapsto> ?b0\<lparr>pendingEvents := ?sorted\<rparr>)\<rparr>"
  obtain ps' lps' s2 where d: "drainLoop cb rt ?sorted (lastProcessedSequence ?b0) ?s1 = (ps', lps', s2)"
    by (metis prod_cases3)
  show "sequences (snd (addEvent cb rt r s)) = sequences s"
    and "nextRef (snd (addEvent cb rt r s)) = nextRef s"
    using addEvent_drain[OF d] drainLoop_sequences[OF d] by simp_all
qed

lemma addEvent_returns: "fst (addEvent cb rt r s) = Inr ()"
  by (simp add: addEvent_def Let_def)

lemma addEvent_eqD:
  "addEvent cb rt r s = (res, s') \<Longrightarrow>
     res = Inr () \<and> sequences s' = sequences s \<and> nextRef s' = nextRef s"
  using addEvent_returns[of cb rt r s] addEvent_sequences[of cb rt r s] by simp

lemma admitOrderCreated_sequences:
  "sequences (snd (admitOrderCreated rt cb order' corr s)) =
     sequences (snd (getNextSequenceNumber rt (order_id order') ''order'' s))"
  using getNextSequenceNumber_result[of rt "order_id order'" "''order''" s]
  by (auto simp: admitOrderCreated_def Let_def
      split: prod.splits sum.splits option.splits dest!: addEvent_eqD)

lemma admitOrderCreated_returns:
  "\<exists>event. fst (admitOrderCreated rt cb order' corr s) = Inr event \<and>
     sequenceNumber event = getCurrentSequence (order_id order') ''order'' s + 1 \<and>
     entityId event = order_id order'"
  using getNextSequenceNumber_result[of rt "order_id order'" "''order''" s]
  by (auto simp: admitOrderCreated_def Let_def
      split: prod.splits sum.splits option.splits dest!: addEvent_eqD)

lemma publishOrderCreated_unfold:
  "fst (admitOrderCreated rt cb order' corr s) = Inr ev \<Longrightarrow>
     publishOrderCreated rt defaults cl cb order' corr s =
       (case fst (publishToInventory rt defaults cl ev ''order.created''
                    (snd (admitOrderCreated rt cb order' corr s))) of
          Inl e \<Rightarrow> (Inl e, snd (publishToInventory rt defaults cl ev ''order.created''
                                (snd (admitOrderCreated rt cb order' corr s))))
        | Inr u \<Rightarrow>
            publishToNotification rt defaults cl
              \<lparr>type_nt = ''ORDER_CREATED'', orderId = order_id order',
               customerId_nt = customerId order', totalAmount_nt = totalAmount order',
               timestamp_nt = dateNow rt (world (snd (publishToInventory rt defaults cl ev
                  ''order.created'' (snd (admitOrderCreated rt cb order' corr s)))))\<rparr>
              ''order.notification''
              (snd (publishToInventory rt defaults cl ev ''order.created''
                      (snd (admitOrderCreated rt cb order' corr s)))))"
  by (cases "admitOrderCreated rt cb order' corr s";
      cases "publishToInventory rt defaults cl ev ''order.created''
               (snd (admitOrderCreated rt cb order' corr s))")
     (auto simp: publishOrderCreated_def split: sum.splits)

text \<open>
  C9. In \<^verbatim>\<open>publishOrderCreated\<close> the first part always gets through: it allocates the
  next number of \<open>(order.id, 'order')\<close>, one more than the pair's value before, and admits
  the event with that number to the buffer. When the emission to the inventory queue
  then fails (after its retries), \<^verbatim>\<open>publishOrderCreated\<close> fails with that same error; and
  whenever \<^verbatim>\<open>publishOrderCreated\<close> fails, the table of sequences, the buffers and the
  event objects are exactly as the first part left them: the counter keeps its
  incremented value and the admission stands, nothing is undone.
\<close>

theorem C9_no_rollback:
  "(\<exists>event. fst (admitOrderCreated rt cb order' corr s) = Inr event \<and>
      sequenceNumber event = getCurrentSequence (order_id order') ''order'' s + 1)
   \<and>
   getCurrentSequence (order_id order') ''order'' (snd (admitOrderCreated rt cb order' corr s))
     = getCurrentSequence (order_id order') ''order'' s + 1
   \<and>
   (fst (admitOrderCreated rt cb order' corr s) = Inr event \<and>
    fst (publishToInventory rt defaults cl event ''order.created''
           (snd (admitOrderCreated rt cb order' corr s))) = Inl e \<longrightarrow>
      fst (publishOrderCreated rt defaults cl cb order' corr s) = Inl e \<and>
      sameStores (snd (admitOrderCreated rt cb order' corr s))
        (snd (publishOrderCreated rt defaults cl cb order' corr s)) \<and>
      getCurrentSequence (order_id order') ''order''
          (snd (publishOrderCreated rt defaults cl cb order' corr s))
        = getCurrentSequence (order_id order') ''order'' s + 1)
   \<and>
   (fst (publishOrderCreated rt defaults cl cb order' corr s) = Inl e \<longrightarrow>
      sameStores (snd (admitOrderCreated rt cb order' corr s))
        (snd (publishOrderCreated rt defaults cl cb order' corr s)) \<and>
      getCurrentSequence (order_id order') ''order''
          (snd (publishOrderCreated rt defaults cl cb order' corr s))
        = getCurrentSequence (order_id order') ''order'' s + 1)"
proof -
  let ?a = "admitOrderCreated rt cb order' corr s"
  let ?p = "publishOrderCreated rt defaults cl cb order' corr s"
  let ?k = "getCurrentSequence (order_id order') ''order'' s"
  have cur: "getCurrentSequence (order_id order') ''order'' (snd ?a) = ?k + 1"
    using getNextSequenceNumber_current[of "order_id order'" "''order''" rt "order_id order'" "''order''" s]
      admitOrderCreated_sequences[of rt cb order' corr s]
    by (simp add: getCurrentSequence_def)
  have same: "sameStores (snd ?a) (snd ?p)"
  proof -
    obtain ev where ev: "fst ?a = Inr ev"
      using admitOrderCreated_returns[of rt cb order' corr s] by blast
    let ?i = "publishToInventory rt defaults cl ev ''order.created'' (snd ?a)"
    have i: "sameStores (snd ?a) (snd ?i)" by (rule publishToInventory_frame)
    show ?thesis
    proof (cases "fst ?i")
      case (Inl x)
      then show ?thesis using i
        by (simp add: publishOrderCreated_unfold[OF ev])
    next
      case (Inr u)
      let ?n = "publishToNotification rt defaults cl
                 \<lparr>type_nt = ''ORDER_CREATED'', orderId = order_id order',
                  customerId_nt = customerId order', totalAmount_nt = totalAmount order',
                  timestamp_nt = dateNow rt (world (snd ?i))\<rparr>
                 ''order.notification'' (snd ?i)"
      have "sameStores (snd ?i) (snd ?n)" by (rule publishToNotification_frame)
      then have "sameStores (snd ?a) (snd ?n)" using i sameStores_trans by blast
      then show ?thesis using Inr
        by (simp add: publishOrderCreated_unfold[OF ev])
    qed
  qed
  have cur': "getCurrentSequence (order_id order') ''order'' (snd ?p) = ?k + 1"
    using same cur by (simp add: sameStores_def getCurrentSequence_def)
  have propagate: "fst ?p = Inl e"
    if h1: "fst ?a = Inr event"
      and h2: "fst (publishToInventory rt defaults cl event ''order.created'' (snd ?a)) = Inl e"
    using h2 by (simp add: publishOrderCreated_unfold[OF h1])
  show ?thesis
    using admitOrderCreated_returns[of rt cb order' corr s] cur same cur' propagate by blast
qed

lemma publishToInventory_fails:
  "fst (executeWithRetry rt defaults (inventoryOperation rt cl event routingKey)
          (noOptions\<lparr>operationType := Some Rabbitmq\<rparr>)
          (''publish-inventory-event-'' @ id_ev event) s) = Inl (Thrown e) \<Longrightarrow>
   fst (publishToInventory rt defaults cl event routingKey s) = Inl (Thrown e)"
  by (cases "executeWithRetry rt defaults (inventoryOperation rt cl event routingKey)
          (noOptions\<lparr>operationType := Some Rabbitmq\<rparr>)
          (''publish-inventory-event-'' @ id_ev event) s")
     (simp add: publishToInventory_def)

lemma rabbitmq_profile:
  "cfgMaxRetries (mergeOptions defaults (noOptions\<lparr>operationType := Some Rabbitmq\<rparr>)) = 3"
  "cfgRetryableErrors (mergeOptions defaults (noOptions\<lparr>operationType := Some Rabbitmq\<rparr>))
     = cfgRetryableErrors defaults"
  by (simp_all add: mergeOptions_def noOptions_def spread_def Let_def)

theorem C9_no_rollback_witness:
  "fst (publishOrderCreated testRuntime defaultRetryOptions testClients returningCallback
          testOrder None (freshState []))
     = Inl (Thrown (Error ''Error''
         ''Operation failed after 4 attempts: publish-inventory-event-uuid. Last error: connect ECONNREFUSED 127.0.0.1:5672''
         None)) \<and>
   getCurrentSequence ''order-1'' ''order''
      (snd (publishOrderCreated testRuntime defaultRetryOptions testClients returningCallback
              testOrder None (freshState []))) = 1 \<and>
   buffers (snd (publishOrderCreated testRuntime defaultRetryOptions testClients
                   returningCallback testOrder None (freshState []))) ''order-1'' =
     Some \<lparr>bufEntityId = ''order-1'', pendingEvents = [], lastProcessedSequence = 1\<rparr>"
proof -
  let ?s = "freshState []"
  let ?ev = "\<lparr>id_ev = ''uuid'', timestamp = 0, version = ''1.0'', sequenceNumber = 1,
              entityId = ''order-1'', correlationId = Some ''uuid'', causationId = None,
              type_ev = ''order.created'', payload = testOrder\<rparr>"
  let ?a = "admitOrderCreated testRuntime returningCallback testOrder None ?s"
  let ?p = "publishOrderCreated testRuntime defaultRetryOptions testClients returningCallback
              testOrder None ?s"
  let ?err = "Thrown (Error ''Error''
               (''Operation failed after '' @ numberToString (3 + 1) @ '' attempts: ''
                  @ (''publish-inventory-event-'' @ id_ev ?ev)
                  @ ''. Last error: '' @ message connectionRefused) None)"
  have a: "fst ?a = Inr ?ev"
    by (simp add: admitOrderCreated_def getNextSequenceNumber_def addEvent_def Let_def
        freshState_def testRuntime_def testOrder_def)
  have b: "buffers (snd ?a) ''order-1'' =
     Some \<lparr>bufEntityId = ''order-1'', pendingEvents = [], lastProcessedSequence = 1\<rparr>"
    by (simp add: admitOrderCreated_def getNextSequenceNumber_def addEvent_def
        processBufferedEvents_def tryProcess_def Let_def
        freshState_def testRuntime_def testOrder_def returningCallback_def)
  have k: "getCurrentSequence (order_id testOrder) ''order'' ?s = 0"
    by (simp add: getCurrentSequence_def freshState_def)
  have f: "\<forall>w. fst (inventoryOperation testRuntime testClients ?ev ''order.created'' w)
             = Inl connectionRefused"
    by (simp add: inventoryOperation_def testClients_def)
  have r: "isRetryableError connectionRefused
             (cfgRetryableErrors (mergeOptions defaultRetryOptions
                (noOptions\<lparr>operationType := Some Rabbitmq\<rparr>)))"
    by (simp add: rabbitmq_profile isRetryableError_def connectionRefused_def
        defaultRetryOptions_def toString_def sublist_code)
  have "fst (executeWithRetry testRuntime defaultRetryOptions
               (inventoryOperation testRuntime testClients ?ev ''order.created'')
               (noOptions\<lparr>operationType := Some Rabbitmq\<rparr>)
               (''publish-inventory-event-'' @ id_ev ?ev) (snd ?a)) = Inl ?err"
    using retryLoop_exhausted[OF f r, of 3 0 testRuntime
        "''publish-inventory-event-'' @ id_ev ?ev" ThrownUndefined "snd ?a"]
    by (simp add: executeWithRetry_def rabbitmq_profile)
  then have i: "fst (publishToInventory testRuntime defaultRetryOptions testClients ?ev
                  ''order.created'' (snd ?a)) = Inl ?err"
    by (rule publishToInventory_fails)
  note t = C9_no_rollback[of testRuntime returningCallback testOrder None ?s ?ev
      defaultRetryOptions testClients ?err]
  from t a i have c: "fst ?p = Inl ?err"
    by blast
  from t c have d: "sameStores (snd ?a) (snd ?p)"
    and e: "getCurrentSequence (order_id testOrder) ''order'' (snd ?p)
              = getCurrentSequence (order_id testOrder) ''order'' ?s + 1"
    by blast+
  show ?thesis
    using b c d e k
    by (simp add: sameStores_def numberToString_4 connectionRefused_def testOrder_def)
qed

end
